theory Spec2Isabelle
  imports Complex_Main "HOL-Library.Word"
begin

unbundle bit_operations_syntax

section \<open>Python values and errors\<close>

text \<open>
  Python integers are unbounded: they are \<open>int\<close>. The message buffer is a
  \<open>bytearray\<close>: a list of 8-bit words. A character of a string is a code point below
  256. Every exception the modelled code can raise is a value of \<open>error\<close>; a function
  that can raise returns \<open>error + 'a\<close>, and one that can raise after it has changed
  the buffer returns the buffer together with the exception, if any.
\<close>

type_synonym byte = "8 word"

text \<open>
  \<open>struct.error\<close> is one class with two messages here: the buffer is too small for
  the 4 bytes at the offset, or the argument is not in \<open>[0, 2^32)\<close>.
\<close>

datatype struct_cause = BufferTooSmall | OutOfRange

datatype error =
    StructError struct_cause
  | ValueError    \<comment> \<open>negative shift count, \<open>int()\<close> on a malformed literal, byte not in \<open>range(256)\<close>\<close>
  | IndexError    \<comment> \<open>list index out of range\<close>

text \<open>
  What a caller sees that lets the exception pass and has no other reference to the
  buffer: the buffer when the call returns, the exception when it raises.
\<close>

definition returned :: "'s \<times> error option \<Rightarrow> error + 's" where
  "returned r = (case snd r of None \<Rightarrow> Inr (fst r) | Some e \<Rightarrow> Inl e)"

section \<open>\<open>struct\<close>: big-endian unsigned 32-bit windows\<close>

definition be_u32 :: "byte list \<Rightarrow> int" where
  "be_u32 bs = foldl (\<lambda>acc b. acc * 256 + uint b) 0 bs"

definition u32_be :: "int \<Rightarrow> byte list" where
  "u32_be v = [word_of_int (drop_bit 24 v), word_of_int (drop_bit 16 v),
               word_of_int (drop_bit 8 v), word_of_int v]"

text \<open>\<open>struct.unpack_from('>L', buf, s)[0]\<close>\<close>

definition unpack_from_L :: "byte list \<Rightarrow> nat \<Rightarrow> error + int" where
  "unpack_from_L buf s =
     (if s + 4 \<le> length buf then Inr (be_u32 (take 4 (drop s buf)))
      else Inl (StructError BufferTooSmall))"

text \<open>
  \<open>struct.pack_into('>L', buf, s, v)\<close>: the buffer afterwards and the exception, if
  any. The size of the buffer is checked first. Then the 4 bytes of the window are set
  to zero, and only then is the argument converted: on a value outside \<open>[0, 2^32)\<close> the
  call raises and leaves the window zeroed.
\<close>

definition pack_into_L :: "byte list \<Rightarrow> nat \<Rightarrow> int \<Rightarrow> byte list \<times> error option" where
  "pack_into_L buf s v =
     (if \<not> s + 4 \<le> length buf then (buf, Some (StructError BufferTooSmall))
      else if v < 0 \<or> 2 ^ 32 \<le> v then
        (take s buf @ replicate 4 0 @ drop (s + 4) buf, Some (StructError OutOfRange))
      else (take s buf @ u32_be v @ drop (s + 4) buf, None))"

definition pack_result :: "byte list \<Rightarrow> nat \<Rightarrow> int \<Rightarrow> error + byte list" where
  "pack_result buf s v = returned (pack_into_L buf s v)"

section \<open>IEBusMessage.py\<close>

record IEBusMessageField =
  BitOffset :: nat
  LengthBits :: nat

definition Broadcast :: IEBusMessageField where
  "Broadcast = \<lparr>BitOffset = 0, LengthBits = 1\<rparr>"
definition MasterAddress :: IEBusMessageField where
  "MasterAddress = \<lparr>BitOffset = 1, LengthBits = 12\<rparr>"
definition MasterAddress_P :: IEBusMessageField where
  "MasterAddress_P = \<lparr>BitOffset = 13, LengthBits = 1\<rparr>"
definition SlaveAddress :: IEBusMessageField where
  "SlaveAddress = \<lparr>BitOffset = 14, LengthBits = 12\<rparr>"
definition SlaveAddress_P :: IEBusMessageField where
  "SlaveAddress_P = \<lparr>BitOffset = 26, LengthBits = 1\<rparr>"
definition SlaveAddress_A :: IEBusMessageField where
  "SlaveAddress_A = \<lparr>BitOffset = 27, LengthBits = 1\<rparr>"
definition Control :: IEBusMessageField where
  "Control = \<lparr>BitOffset = 28, LengthBits = 4\<rparr>"
definition Control_P :: IEBusMessageField where
  "Control_P = \<lparr>BitOffset = 32, LengthBits = 1\<rparr>"
definition Control_A :: IEBusMessageField where
  "Control_A = \<lparr>BitOffset = 33, LengthBits = 1\<rparr>"
definition DataLength :: IEBusMessageField where
  "DataLength = \<lparr>BitOffset = 34, LengthBits = 8\<rparr>"
definition DataLength_P :: IEBusMessageField where
  "DataLength_P = \<lparr>BitOffset = 42, LengthBits = 1\<rparr>"
definition DataLength_A :: IEBusMessageField where
  "DataLength_A = \<lparr>BitOffset = 43, LengthBits = 1\<rparr>"

definition DataFieldLength :: nat where
  "DataFieldLength = 10"

definition Data :: "nat \<Rightarrow> IEBusMessageField" where
  "Data n = \<lparr>BitOffset = 44 + DataFieldLength * n, LengthBits = 8\<rparr>"
definition Data_P :: "nat \<Rightarrow> IEBusMessageField" where
  "Data_P n = \<lparr>BitOffset = 44 + 8 + DataFieldLength * n, LengthBits = 1\<rparr>"
definition Data_A :: "nat \<Rightarrow> IEBusMessageField" where
  "Data_A n = \<lparr>BitOffset = 44 + 9 + DataFieldLength * n, LengthBits = 1\<rparr>"

definition UNICAST :: int where "UNICAST = 1"
definition BROADCAST :: int where "BROADCAST = 0"
definition NAK :: int where "NAK = 1"
definition ACK :: int where "ACK = 0"

definition MaxMessageLenBytes :: nat where
  "MaxMessageLenBytes = 64"
definition DefaultAckVal :: int where
  "DefaultAckVal = NAK"

text \<open>
  \<open>getField\<close>: the window is unpacked first (\<open>struct.error\<close> when it does not fit),
  then shifted (\<open>ValueError\<close> on a negative shift count) and masked.
\<close>

definition getField :: "byte list \<Rightarrow> IEBusMessageField \<Rightarrow> error + int" where
  "getField message_bytes field =
     (let startByte = BitOffset field div 8;
          lenBytes = (4 :: int);
          bitMask = push_bit (LengthBits field) (1 :: int) - 1;
          bitShift = lenBytes * 8 - int (LengthBits field) - int (BitOffset field mod 8)
      in case unpack_from_L message_bytes startByte of
           Inl e \<Rightarrow> Inl e
         | Inr v \<Rightarrow>
             if bitShift < 0 then Inl ValueError
             else Inr (drop_bit (nat bitShift) v AND bitMask))"

text \<open>
  \<open>setField\<close>: the value is shifted into position without being masked, the window is
  read, cleared under the mask, combined with the value and written back. The result is
  \<open>self.message_bytes\<close> afterwards and the exception, if any.
\<close>

definition setField :: "byte list \<Rightarrow> IEBusMessageField \<Rightarrow> int \<Rightarrow> byte list \<times> error option" where
  "setField message_bytes field v =
     (let startByte = BitOffset field div 8;
          lenBytes = (4 :: int);
          bitMask = push_bit (LengthBits field) (1 :: int) - 1;
          bitShift = lenBytes * 8 - int (LengthBits field) - int (BitOffset field mod 8)
      in if bitShift < 0 then (message_bytes, Some ValueError)
         else
           let bitMask' = push_bit (nat bitShift) bitMask;
               v' = push_bit (nat bitShift) v
           in case unpack_from_L message_bytes startByte of
                Inl e \<Rightarrow> (message_bytes, Some e)
              | Inr valuePtr \<Rightarrow>
                  pack_into_L message_bytes startByte ((valuePtr AND NOT bitMask') OR v'))"

text \<open>
  \<open>setField\<close> inside \<open>__init__\<close>: when it raises, the constructor raises and the object
  with its buffer is dropped.
\<close>

definition set_field :: "byte list \<Rightarrow> IEBusMessageField \<Rightarrow> int \<Rightarrow> error + byte list" where
  "set_field message_bytes field v = returned (setField message_bytes field v)"

subsection \<open>\<open>calculateParity\<close>\<close>

text \<open>
  The loop shifts \<open>value\<close> right until it is zero. On a negative Python integer the
  shift converges to \<open>-1\<close> and the loop never ends: not returning is \<open>None\<close>.
\<close>

partial_function (option) parity_loop :: "int \<Rightarrow> bool \<Rightarrow> bool option" where
  "parity_loop v p =
     (if v \<noteq> 0 then parity_loop (drop_bit 1 v) (if v AND 1 \<noteq> 0 then \<not> p else p)
      else Some p)"

declare parity_loop.simps [code]

definition calculateParity :: "int \<Rightarrow> bool option" where
  "calculateParity v = parity_loop v False"

subsection \<open>Outcomes of code that may raise or may not return\<close>

text \<open>\<open>None\<close>: the call does not return; \<open>Some (Inl e)\<close>: it raises \<open>e\<close>.\<close>

type_synonym 'a res = "(error + 'a) option"

definition bind_res :: "'a res \<Rightarrow> ('a \<Rightarrow> 'b res) \<Rightarrow> 'b res" where
  "bind_res m k = (case m of None \<Rightarrow> None | Some (Inl e) \<Rightarrow> Some (Inl e) | Some (Inr x) \<Rightarrow> k x)"

definition bind_e :: "error + 'a \<Rightarrow> ('a \<Rightarrow> error + 'b) \<Rightarrow> error + 'b" where
  "bind_e m k = (case m of Inl e \<Rightarrow> Inl e | Inr x \<Rightarrow> k x)"

text \<open>A parity passed on as a field value: \<open>True\<close> is 1 and \<open>False\<close> is 0.\<close>

definition parity_res :: "int \<Rightarrow> int res" where
  "parity_res v = map_option (\<lambda>p. Inr (if p then 1 else 0)) (calculateParity v)"

subsection \<open>Python strings: \<open>split\<close>, \<open>int(s, base)\<close>, \<open>format\<close>\<close>

text \<open>
  \<open>str.isspace\<close> on a code point below 256: what \<open>str.split()\<close> splits on.
\<close>

definition is_space :: "char \<Rightarrow> bool" where
  "is_space c \<longleftrightarrow>
     (let n = (of_char c :: nat)
      in (9 \<le> n \<and> n \<le> 13) \<or> (28 \<le> n \<and> n \<le> 32) \<or> n = 133 \<or> n = 160)"

text \<open>
  What \<open>int(s, base)\<close> skips around the literal: the ASCII whitespace of C, and the
  two other spaces below 256, which it turns into blanks first.
\<close>

definition int_space :: "char \<Rightarrow> bool" where
  "int_space c \<longleftrightarrow>
     (let n = (of_char c :: nat) in (9 \<le> n \<and> n \<le> 13) \<or> n = 32 \<or> n = 133 \<or> n = 160)"

text \<open>\<open>s.split()\<close>: the maximal runs of characters that are not whitespace.\<close>

fun split_aux :: "string \<Rightarrow> string \<Rightarrow> string list" where
  "split_aux cur [] = (if cur = [] then [] else [cur])"
| "split_aux cur (c # cs) =
     (if is_space c then (if cur = [] then split_aux [] cs else cur # split_aux [] cs)
      else split_aux (cur @ [c]) cs)"

definition split :: "string \<Rightarrow> string list" where
  "split s = split_aux [] s"

definition digit_val :: "char \<Rightarrow> nat option" where
  "digit_val c =
     (let n = (of_char c :: nat) in
      if 48 \<le> n \<and> n \<le> 57 then Some (n - 48)
      else if 97 \<le> n \<and> n \<le> 122 then Some (n - 87)
      else if 65 \<le> n \<and> n \<le> 90 then Some (n - 55)
      else None)"

text \<open>
  The digit scanner of \<open>int(s, base)\<close> for the bases 2 and 16: digits below the base,
  with single underscores between them; it stops at the first other character.
  \<open>None\<close> is a syntax error (two underscores in a row, or a trailing one).
\<close>

fun scan_digits :: "nat \<Rightarrow> bool \<Rightarrow> string \<Rightarrow> nat list \<Rightarrow> (nat list \<times> string) option" where
  "scan_digits base prev_us [] acc = (if prev_us then None else Some (acc, []))"
| "scan_digits base prev_us (c # cs) acc =
     (if c = CHR ''_'' then (if prev_us then None else scan_digits base True cs acc)
      else case digit_val c of
             Some d \<Rightarrow>
               if d < base then scan_digits base False cs (acc @ [d])
               else if prev_us then None else Some (acc, c # cs)
           | None \<Rightarrow> if prev_us then None else Some (acc, c # cs))"

definition has_prefix :: "nat \<Rightarrow> string \<Rightarrow> bool" where
  "has_prefix base s =
     (case s of
        c0 # c1 # _ \<Rightarrow>
          c0 = CHR ''0'' \<and>
          ((base = 16 \<and> (c1 = CHR ''x'' \<or> c1 = CHR ''X'')) \<or>
           (base = 2 \<and> (c1 = CHR ''b'' \<or> c1 = CHR ''B'')))
      | _ \<Rightarrow> False)"

text \<open>
  \<open>int(s, base)\<close> for \<open>base\<close> 2 or 16: surrounding whitespace, an optional sign, an
  optional prefix of the base followed by at most one underscore, then the digits.
\<close>

definition py_int :: "nat \<Rightarrow> string \<Rightarrow> error + int" where
  "py_int base s =
     (let s1 = dropWhile int_space s;
          neg = (case s1 of c # _ \<Rightarrow> c = CHR ''-'' | [] \<Rightarrow> False);
          s2 = (case s1 of c # r \<Rightarrow> if c = CHR ''+'' \<or> c = CHR ''-'' then r else s1 | [] \<Rightarrow> s1);
          s3 = (if has_prefix base s2
                then (case drop 2 s2 of c # r \<Rightarrow> if c = CHR ''_'' then r else c # r | [] \<Rightarrow> [])
                else s2)
      in case s3 of
           [] \<Rightarrow> Inl ValueError
         | c # _ \<Rightarrow>
             if c = CHR ''_'' then Inl ValueError
             else case scan_digits base False s3 [] of
                    None \<Rightarrow> Inl ValueError
                  | Some (ds, rest) \<Rightarrow>
                      if ds = [] \<or> dropWhile int_space rest \<noteq> [] then Inl ValueError
                      else let v = foldl (\<lambda>a d. a * int base + int d) 0 ds
                           in Inr (if neg then - v else v))"

definition digit_char :: "nat \<Rightarrow> char" where
  "digit_char d = ''0123456789abcdef'' ! d"

function digits_of :: "nat \<Rightarrow> nat \<Rightarrow> string" where
  "digits_of base n =
     (if base < 2 \<or> n < base then [digit_char n]
      else digits_of base (n div base) @ [digit_char (n mod base)])"
  by pat_completeness auto
termination
  by (relation "measure (\<lambda>(base, n). n)") auto

declare digits_of.simps [simp del]

text \<open>\<open>'{:0Wx}'.format(v)\<close>: lower-case hexadecimal, zero-padded after the sign to width W.\<close>

definition format_0x :: "nat \<Rightarrow> int \<Rightarrow> string" where
  "format_0x width v =
     (let sgn = (if v < 0 then [CHR ''-''] else []);
          ds = digits_of 16 (nat \<bar>v\<bar>)
      in sgn @ replicate (width - length sgn - length ds) CHR ''0'' @ ds)"

text \<open>\<open>'{:Wd}'.format(v)\<close>: decimal, right-aligned with spaces to width W.\<close>

definition format_d :: "nat \<Rightarrow> int \<Rightarrow> string" where
  "format_d width v =
     (let s = (if v < 0 then [CHR ''-''] else []) @ digits_of 10 (nat \<bar>v\<bar>)
      in replicate (width - length s) CHR '' '' @ s)"

subsection \<open>\<open>IEBusMessage.__init__\<close>: the encode paths\<close>

text \<open>
  An argument is \<open>None\<close> when it is not supplied. Python's truth test skips a block
  for \<open>None\<close>, for \<open>0\<close> and for the empty list alike.
\<close>

definition truthy :: "int option \<Rightarrow> bool" where
  "truthy x = (case x of None \<Rightarrow> False | Some v \<Rightarrow> v \<noteq> 0)"

definition write_broadcast :: "byte list \<Rightarrow> int option \<Rightarrow> byte list res" where
  "write_broadcast buf broadcast =
     (if truthy broadcast then Some (set_field buf Broadcast (the broadcast)) else Some (Inr buf))"

definition write_master :: "byte list \<Rightarrow> int option \<Rightarrow> byte list res" where
  "write_master buf master_address =
     (if truthy master_address then
        bind_res (Some (set_field buf MasterAddress (the master_address))) (\<lambda>buf.
        bind_res (parity_res (the master_address)) (\<lambda>p.
        Some (set_field buf MasterAddress_P p)))
      else Some (Inr buf))"

definition write_slave :: "byte list \<Rightarrow> int option \<Rightarrow> byte list res" where
  "write_slave buf slave_address =
     (if truthy slave_address then
        bind_res (Some (set_field buf SlaveAddress (the slave_address))) (\<lambda>buf.
        bind_res (parity_res (the slave_address)) (\<lambda>p.
        bind_res (Some (set_field buf SlaveAddress_P p)) (\<lambda>buf.
        Some (set_field buf SlaveAddress_A DefaultAckVal))))
      else Some (Inr buf))"

definition write_control :: "byte list \<Rightarrow> int option \<Rightarrow> byte list res" where
  "write_control buf control =
     (if truthy control then
        bind_res (Some (set_field buf Control (the control))) (\<lambda>buf.
        bind_res (parity_res (the control)) (\<lambda>p.
        bind_res (Some (set_field buf Control_P p)) (\<lambda>buf.
        Some (set_field buf Control_A DefaultAckVal))))
      else Some (Inr buf))"

text \<open>\<open>for i, val in enumerate(data)\<close>, from index \<open>i\<close> on\<close>

fun write_data_fields :: "byte list \<Rightarrow> nat \<Rightarrow> int list \<Rightarrow> byte list res" where
  "write_data_fields buf i [] = Some (Inr buf)"
| "write_data_fields buf i (val # vals) =
     bind_res (Some (set_field buf (Data i) val)) (\<lambda>buf.
     bind_res (parity_res val) (\<lambda>p.
     bind_res (Some (set_field buf (Data_P i) p)) (\<lambda>buf.
     bind_res (Some (set_field buf (Data_A i) DefaultAckVal)) (\<lambda>buf.
     write_data_fields buf (Suc i) vals))))"

definition write_data :: "byte list \<Rightarrow> int list option \<Rightarrow> byte list res" where
  "write_data buf data =
     (case data of
        None \<Rightarrow> Some (Inr buf)
      | Some [] \<Rightarrow> Some (Inr buf)
      | Some ds \<Rightarrow>
          bind_res (Some (set_field buf DataLength (int (length ds)))) (\<lambda>buf.
          bind_res (parity_res (int (length ds))) (\<lambda>p.
          bind_res (Some (set_field buf DataLength_P p)) (\<lambda>buf.
          bind_res (Some (set_field buf DataLength_A DefaultAckVal)) (\<lambda>buf.
          write_data_fields buf 0 ds)))))"

text \<open>Lines 142 to 164: the zeroed, guarded buffer and the five blocks.\<close>

definition init_fields ::
  "int option \<Rightarrow> int option \<Rightarrow> int option \<Rightarrow> int option \<Rightarrow> int list option \<Rightarrow> byte list res" where
  "init_fields broadcast master_address slave_address control data =
     bind_res (write_broadcast (replicate (MaxMessageLenBytes + 4) 0) broadcast) (\<lambda>buf.
     bind_res (write_master buf master_address) (\<lambda>buf.
     bind_res (write_slave buf slave_address) (\<lambda>buf.
     bind_res (write_control buf control) (\<lambda>buf.
     write_data buf data))))"

text \<open>A list comprehension over a function that may raise stops at the first error.\<close>

fun map_e :: "('a \<Rightarrow> error + 'b) \<Rightarrow> 'a list \<Rightarrow> error + 'b list" where
  "map_e f [] = Inr []"
| "map_e f (x # xs) =
     (case f x of
        Inl e \<Rightarrow> Inl e
      | Inr v \<Rightarrow> (case map_e f xs of Inl e \<Rightarrow> Inl e | Inr vs \<Rightarrow> Inr (v # vs)))"

text \<open>\<open>[int(dStr, 16) for dStr in message_parts[3:]]\<close>\<close>

definition parse_data :: "string list \<Rightarrow> error + int list" where
  "parse_data ts = map_e (py_int 16) ts"

text \<open>
  Lines 134 to 140, with \<open>message_bytes\<close> not supplied: a non-empty
  \<open>message_string\<close> rebinds the five arguments, an empty one is false and leaves them
  as they are. Indexing \<open>message_parts\<close> beyond its length raises \<open>IndexError\<close>.
\<close>

definition resolve_args ::
  "string option \<Rightarrow> int option \<Rightarrow> int option \<Rightarrow> int option \<Rightarrow> int option \<Rightarrow> int list option
     \<Rightarrow> error + (int option \<times> int option \<times> int option \<times> int option \<times> int list option)" where
  "resolve_args message_string broadcast master_address slave_address control data =
     (case message_string of
        None \<Rightarrow> Inr (broadcast, master_address, slave_address, control, data)
      | Some [] \<Rightarrow> Inr (broadcast, master_address, slave_address, control, data)
      | Some str \<Rightarrow>
          (case split (filter (\<lambda>c. c \<noteq> CHR '':'') str) of
             p0 # p1 # p2 # rest \<Rightarrow>
               bind_e (py_int 16 p1) (\<lambda>master.
               bind_e (py_int 16 p2) (\<lambda>slave.
               bind_e (parse_data rest) (\<lambda>ds.
               Inr (Some (if p0 = ''B'' then BROADCAST else UNICAST),
                    Some master, Some slave, Some 15, Some ds))))
           | [p0, p1] \<Rightarrow> bind_e (py_int 16 p1) (\<lambda>master. Inl IndexError)
           | _ \<Rightarrow> Inl IndexError))"

text \<open>\<open>IEBusMessage.__init__\<close> on the encode paths.\<close>

definition IEBusMessage_init ::
  "string option \<Rightarrow> int option \<Rightarrow> int option \<Rightarrow> int option \<Rightarrow> int option \<Rightarrow> int list option
     \<Rightarrow> byte list res" where
  "IEBusMessage_init message_string broadcast master_address slave_address control data =
     (case resolve_args message_string broadcast master_address slave_address control data of
        Inl e \<Rightarrow> Some (Inl e)
      | Inr (broadcast, master_address, slave_address, control, data) \<Rightarrow>
          init_fields broadcast master_address slave_address control data)"

text \<open>The token-string constructor and the structured-field constructor.\<close>

definition from_string :: "string \<Rightarrow> byte list res" where
  "from_string str = IEBusMessage_init (Some str) None None None None None"


subsection \<open>Reading a message\<close>

text \<open>\<open>[self.getField(IEBusMessage.Data(i)) for i in ...]\<close>\<close>

fun get_data_fields :: "byte list \<Rightarrow> nat list \<Rightarrow> error + int list" where
  "get_data_fields buf [] = Inr []"
| "get_data_fields buf (i # is) =
     bind_e (getField buf (Data i)) (\<lambda>v.
     bind_e (get_data_fields buf is) (\<lambda>vs. Inr (v # vs)))"

text \<open>\<open>bytearray(xs)\<close> raises \<open>ValueError\<close> on an element outside \<open>range(256)\<close>.\<close>

definition bytearray :: "int list \<Rightarrow> error + byte list" where
  "bytearray xs =
     (if list_all (\<lambda>x. 0 \<le> x \<and> x < 256) xs then Inr (map word_of_int xs) else Inl ValueError)"

definition getData :: "byte list \<Rightarrow> error + byte list" where
  "getData buf =
     bind_e (getField buf DataLength) (\<lambda>dataLen.
     bind_e (get_data_fields buf [0..<nat dataLen]) bytearray)"

definition getLengthInBits :: "byte list \<Rightarrow> error + nat" where
  "getLengthInBits buf =
     bind_e (getField buf DataLength) (\<lambda>dataLen.
     Inr (BitOffset (Data 0) + DataFieldLength * nat dataLen))"

text \<open>
  \<open>int((length_in_bits - 1)/8)+1\<close>: the length is at least 44, so truncation and floor
  agree.
\<close>

definition getAsBytes :: "byte list \<Rightarrow> error + byte list" where
  "getAsBytes buf =
     bind_e (getLengthInBits buf) (\<lambda>length_in_bits.
     Inr (take ((length_in_bits - 1) div 8 + 1) buf))"

definition str_data :: "int list \<Rightarrow> string" where
  "str_data vs = concat (map (\<lambda>v. format_0x 2 v @ [CHR '' '']) vs)"

text \<open>\<open>__str__\<close>\<close>

definition to_str :: "byte list \<Rightarrow> error + string" where
  "to_str buf =
     bind_e (getField buf DataLength) (\<lambda>dataLen.
     bind_e (getField buf Broadcast) (\<lambda>b.
     bind_e (getField buf MasterAddress) (\<lambda>m.
     bind_e (getField buf SlaveAddress) (\<lambda>s.
     bind_e (getField buf Control) (\<lambda>c.
     bind_e (get_data_fields buf [0..<nat dataLen]) (\<lambda>vs.
     Inr ((if b = BROADCAST then ''B'' else ''-'') @ '' '' @ format_0x 3 m @ '' '' @
          format_0x 3 s @ '' '' @ format_0x 1 c @ '' '' @ format_d 2 dataLen @ '' : '' @
          str_data vs)))))))"

subsection \<open>\<open>isValid\<close>\<close>

text \<open>
  The state of the checks is the flag \<open>isValid\<close> and the lines printed so far. Each
  check reads the stored parity bit, then the field, then recomputes the parity.
\<close>

definition check_parity ::
  "byte list \<Rightarrow> IEBusMessageField \<Rightarrow> IEBusMessageField \<Rightarrow> string \<Rightarrow> bool \<times> string list
     \<Rightarrow> (bool \<times> string list) res" where
  "check_parity buf fP f name st =
     bind_res (Some (getField buf fP)) (\<lambda>stored.
     bind_res (Some (getField buf f)) (\<lambda>v.
     bind_res (parity_res v) (\<lambda>p.
     Some (Inr (if stored \<noteq> p then (False, snd st @ [''Bad parity! '' @ name]) else st)))))"

fun check_data :: "byte list \<Rightarrow> nat list \<Rightarrow> bool \<times> string list \<Rightarrow> (bool \<times> string list) res" where
  "check_data buf [] st = Some (Inr st)"
| "check_data buf (i # is) st =
     bind_res (check_parity buf (Data_P i) (Data i) (''Data '' @ format_d 0 (int i)) st)
       (\<lambda>st. check_data buf is st)"

definition isValid :: "byte list \<Rightarrow> (bool \<times> string list) res" where
  "isValid buf =
     bind_res (check_parity buf MasterAddress_P MasterAddress ''MasterAddress'' (True, [])) (\<lambda>st.
     bind_res (check_parity buf SlaveAddress_P SlaveAddress ''SlaveAddress'' st) (\<lambda>st.
     bind_res (check_parity buf Control_P Control ''Control'' st) (\<lambda>st.
     bind_res (Some (getField buf DataLength)) (\<lambda>dataLength.
     bind_res (Some (getField buf DataLength_P)) (\<lambda>stored.
     bind_res (parity_res dataLength) (\<lambda>p.
     check_data buf [0..<nat dataLength]
       (if stored \<noteq> p then (False, snd st @ [''Bad parity! DataLength'']) else st)))))))"


section \<open>IEBusBitBang.py: bytes and bits\<close>

text \<open>\<open>'{:08b}'.format(b)\<close> read as booleans: most significant bit first.\<close>

definition byte_bits :: "byte \<Rightarrow> bool list" where
  "byte_bits b = map (\<lambda>k. bit b (7 - k)) [0..<8]"

definition bytes_to_bits :: "byte list \<Rightarrow> bool list" where
  "bytes_to_bits messageBytes = concat (map byte_bits messageBytes)"

subsection \<open>Timing constants\<close>

text \<open>Python's \<open>round\<close> on a float: to the nearest integer, a tie to the even one.\<close>

definition py_round :: "real \<Rightarrow> int" where
  "py_round x =
     (let f = \<lfloor>x\<rfloor>; d = x - of_int f
      in if d < 1 / 2 then f else if 1 / 2 < d then f + 1 else if even f then f else f + 1)"

text \<open>
  The constants are computed at import in binary64 arithmetic: every literal that is not
  an integer and every operation on floats is rounded to the nearest number with a
  significand of 53 bits, a tie to the even one. \<open>fl64\<close> is that rounding, for numbers in
  the normal range (here they lie between \<open>10^-6\<close> and 200); it is applied exactly where
  Python rounds. Integers of this size convert to floats exactly.
\<close>

definition fl64 :: "real \<Rightarrow> real" where
  "fl64 x =
     (if x = 0 then 0
      else let e = \<lfloor>log 2 \<bar>x\<bar>\<rfloor> - 52
           in of_int (py_round (x / 2 powr of_int e)) * 2 powr of_int e)"

definition bitRate :: int where
  "bitRate = 1000000"

definition T_Bit_uS :: real where
  "T_Bit_uS = fl64 (256 / fl64 6.291456)"

definition uS_to_bits :: "real \<Rightarrow> int" where
  "uS_to_bits time = py_round (fl64 (fl64 (fl64 (1 / 1000000) * of_int bitRate) * time))"

definition T_StartBit :: int where
  "T_StartBit = uS_to_bits 170"
definition T_Bit :: int where
  "T_Bit = uS_to_bits T_Bit_uS"
definition T_Bit_1 :: int where
  "T_Bit_1 = uS_to_bits (fl64 (T_Bit_uS / 2))"
definition T_Bit_0 :: int where
  "T_Bit_0 = uS_to_bits (fl64 (fl64 (4 * T_Bit_uS) / 5))"
definition T_TxWait :: int where
  "T_TxWait = uS_to_bits 88"

subsection \<open>Line signals\<close>

definition lineState :: "bool \<Rightarrow> char" where
  "lineState state = (if state then CHR ''0'' else CHR ''1'')"

text \<open>A string repeated a negative number of times is empty.\<close>

definition make_output_segment :: "bool \<Rightarrow> int \<Rightarrow> string" where
  "make_output_segment state timeBits = replicate (nat timeBits) (lineState state)"

text \<open>The bits come from \<open>bytes_to_bits\<close> as booleans, and \<open>False == 0\<close>.\<close>

definition make_output_from_bit :: "bool \<Rightarrow> string" where
  "make_output_from_bit bitVal =
     (if \<not> bitVal then
        make_output_segment True T_Bit_0 @ make_output_segment False (T_Bit - T_Bit_0)
      else
        make_output_segment True T_Bit_1 @ make_output_segment False (T_Bit - T_Bit_1))"

definition make_output_from_iebus_bits :: "bool list \<Rightarrow> string" where
  "make_output_from_iebus_bits messageBits =
     (let bitStr = [];
          bitStr = bitStr @ make_output_segment True T_StartBit;
          bitStr = bitStr @ make_output_segment False T_Bit_1;
          bitStr = foldl (\<lambda>bitStr bitVal. bitStr @ make_output_from_bit bitVal) bitStr messageBits;
          bitStr = bitStr @ make_output_segment False T_TxWait
      in bitStr)"

text \<open>
  Lines 105 to 107: the bytes of the message as bits, cut to the length of the message.
\<close>

definition message_bits :: "byte list \<Rightarrow> error + bool list" where
  "message_bits message =
     bind_e (getAsBytes message) (\<lambda>msgBytes.
     bind_e (getLengthInBits message) (\<lambda>n.
     Inr (take n (bytes_to_bits msgBytes))))"

definition make_output_from_iebus_message :: "byte list \<Rightarrow> error + string" where
  "make_output_from_iebus_message message =
     bind_e (message_bits message) (\<lambda>msgBits. Inr (make_output_from_iebus_bits msgBits))"

subsection \<open>\<open>bits_to_bytes\<close>\<close>

text \<open>\<open>[bitStr[i:i+8] for i in range(0, len(bitStr), 8)]\<close>\<close>

function chunks8 :: "string \<Rightarrow> string list" where
  "chunks8 s = (if s = [] then [] else take 8 s # chunks8 (drop 8 s))"
  by pat_completeness auto
termination
  by (relation "measure length") auto

declare chunks8.simps [simp del]

definition ljust :: "nat \<Rightarrow> char \<Rightarrow> string \<Rightarrow> string" where
  "ljust n c s = s @ replicate (n - length s) c"

definition bits_to_bytes :: "string \<Rightarrow> error + byte list" where
  "bits_to_bytes bitStr =
     (let byteStrings = map (ljust 8 CHR ''1'') (chunks8 bitStr)
      in bind_e (map_e (py_int 2) byteStrings) bytearray)"

section \<open>BitBangUtility.py: composing the timeline\<close>

text \<open>
  \<open>xs[a:b] = ys\<close> on a list: a negative bound counts from the end, both bounds are
  clamped to the list, an empty or reversed range inserts at its start, and the list
  grows or shrinks when \<open>ys\<close> and the range differ in length.
\<close>

definition slice_assign :: "'a list \<Rightarrow> int \<Rightarrow> int \<Rightarrow> 'a list \<Rightarrow> 'a list" where
  "slice_assign xs a b ys =
     (let n = int (length xs);
          clamp = (\<lambda>i. if i < 0 then max (i + n) 0 else min i n);
          lo = clamp a;
          hi = max (clamp b) lo
      in take (nat lo) xs @ ys @ drop (nat hi) xs)"

text \<open>
  Lines 128 to 149. A row is the normalised timestamp of a message (\<open>messages[i][0]\<close>)
  and the message (\<open>ieBusMessages[i]\<close>). Line 128 encodes every message, the loop
  encodes each again and assigns it to a slice of the timeline; it starts from index
  \<open>i\<close>.
\<close>

fun place_signals :: "int \<Rightarrow> string \<Rightarrow> nat \<Rightarrow> (int \<times> byte list) list \<Rightarrow> error + string" where
  "place_signals regular signal i [] = Inr signal"
| "place_signals regular signal i ((t, ieBusMessage) # rows) =
     bind_e (make_output_from_iebus_message ieBusMessage) (\<lambda>messageOutput.
     let time = (if regular \<noteq> 0 then int i * regular else t);
         messageLen = int (length messageOutput)
     in place_signals regular (slice_assign signal time (time + messageLen) messageOutput)
          (Suc i) rows)"

definition compose_timeline :: "int \<Rightarrow> (int \<times> byte list) list \<Rightarrow> error + string" where
  "compose_timeline regular rows =
     bind_e (map_e make_output_from_iebus_message (map snd rows)) (\<lambda>messageSignals.
     bind_e (if regular \<noteq> 0 then Inr (regular * int (length rows))
             else if rows = [] then Inl IndexError
             else Inr (fst (last rows) + int (length (last messageSignals)))) (\<lambda>totalLength.
     place_signals regular (replicate (nat totalLength) CHR ''1'') 0 rows))"

section \<open>Notions used to state the properties\<close>

text \<open>
  A field fits a buffer when its shift is not negative and its 4-byte window lies inside
  the buffer (the guard region of the source).
\<close>

definition fits :: "byte list \<Rightarrow> IEBusMessageField \<Rightarrow> bool" where
  "fits buf f \<longleftrightarrow>
     LengthBits f + BitOffset f mod 8 \<le> 32 \<and> BitOffset f div 8 + 4 \<le> length buf"

definition shift_of :: "IEBusMessageField \<Rightarrow> nat" where
  "shift_of f = 32 - LengthBits f - BitOffset f mod 8"

text \<open>The bit positions a field occupies in the message.\<close>

definition window :: "IEBusMessageField \<Rightarrow> nat set" where
  "window f = {BitOffset f ..< BitOffset f + LengthBits f}"

text \<open>The population count of a non-negative integer.\<close>

definition popcount :: "int \<Rightarrow> nat" where
  "popcount v = card {n. bit v n}"


text \<open>The buffer built from the token string \<open>- 190 440 f 5 00 25 74 9C 04\<close>.\<close>

definition example_message :: "byte list" where
  "example_message =
     [140, 133, 16, 31, 65, 240, 244, 21, 0, 73, 119, 70, 113, 4, 192] @ replicate 53 0"

text \<open>The parity bit of a non-negative value, as a field value.\<close>

definition par :: "int \<Rightarrow> int" where
  "par v = (if odd (popcount v) then 1 else 0)"

text \<open>Two buffers of one length that agree on every bit outside \<open>W\<close>.\<close>

definition frame :: "nat set \<Rightarrow> byte list \<Rightarrow> byte list \<Rightarrow> bool" where
  "frame W buf buf' \<longleftrightarrow>
     length buf' = length buf \<and>
     (\<forall>p < 8 * length buf. p \<notin> W \<longrightarrow> bytes_to_bits buf' ! p = bytes_to_bits buf ! p)"

text \<open>The stored parity bit of a field is the parity of the stored field.\<close>

definition parity_ok :: "byte list \<Rightarrow> IEBusMessageField \<Rightarrow> IEBusMessageField \<Rightarrow> bool" where
  "parity_ok buf f fP \<longleftrightarrow>
     (\<exists>v. 0 \<le> v \<and> getField buf f = Inr v \<and> getField buf fP = Inr (par v))"

text \<open>
  The resolved constructor arguments are in range: the broadcast flag is 0 or 1, the
  addresses have 12 bits, the control field 4, every data byte 8, and there are at most
  47 data bytes (the last data unit whose three windows lie inside the 68-byte buffer
  has index 46).
\<close>

definition in_range ::
  "int option \<Rightarrow> int option \<Rightarrow> int option \<Rightarrow> int option \<Rightarrow> int list option \<Rightarrow> bool" where
  "in_range broadcast master_address slave_address control data \<longleftrightarrow>
     (case broadcast of None \<Rightarrow> True | Some b \<Rightarrow> b = 0 \<or> b = 1) \<and>
     (case master_address of None \<Rightarrow> True | Some m \<Rightarrow> 0 \<le> m \<and> m < 2 ^ 12) \<and>
     (case slave_address of None \<Rightarrow> True | Some m \<Rightarrow> 0 \<le> m \<and> m < 2 ^ 12) \<and>
     (case control of None \<Rightarrow> True | Some m \<Rightarrow> 0 \<le> m \<and> m < 2 ^ 4) \<and>
     (case data of None \<Rightarrow> True
      | Some ds \<Rightarrow> length ds \<le> 47 \<and> list_all (\<lambda>x. 0 \<le> x \<and> x < 256) ds)"

text \<open>The buffer built from the token string \<open>- 1fff 440 f\<close>.\<close>

definition overwide_master_message :: "byte list" where
  "overwide_master_message = [255, 253, 16, 31, 64, 112, 244] @ replicate 61 0"


text \<open>The constructor raises \<open>struct.error\<close>.\<close>

definition struct_error :: "byte list res \<Rightarrow> bool" where
  "struct_error r \<longleftrightarrow> (\<exists>c. r = Some (Inl (StructError c)))"

text \<open>The value of a string of binary digits, and a string of samples.\<close>

definition bin_val :: "string \<Rightarrow> int" where
  "bin_val t = foldl (\<lambda>a c. 2 * a + (if c = CHR ''1'' then 1 else 0)) 0 t"

definition samples :: "string \<Rightarrow> bool" where
  "samples s = list_all (\<lambda>c. c = CHR ''0'' \<or> c = CHR ''1'') s"

text \<open>The line signal of the example message: 114 bits.\<close>

definition example_signal :: string where
  "example_signal = make_output_from_iebus_bits (take 114 (bytes_to_bits example_message))"

section \<open>Bits of a buffer and of a window\<close>

lemma returned_simps [simp]:
  "returned (b, None) = Inr b"
  "returned (b, Some e) = Inl e"
  by (simp_all add: returned_def)

lemma returned_Inr_iff: "returned r = Inr b \<longleftrightarrow> r = (b, None)"
  by (cases r) (auto simp add: returned_def split: option.splits)

lemma pack_result_eq:
  "pack_result buf s v =
     (if \<not> s + 4 \<le> length buf then Inl (StructError BufferTooSmall)
      else if v < 0 \<or> 2 ^ 32 \<le> v then Inl (StructError OutOfRange)
      else Inr (take s buf @ u32_be v @ drop (s + 4) buf))"
  by (simp add: pack_result_def pack_into_L_def)

lemma set_field_unfold:
  "set_field buf f v =
     (let startByte = BitOffset f div 8;
          bitMask = push_bit (LengthBits f) (1 :: int) - 1;
          bitShift = 4 * 8 - int (LengthBits f) - int (BitOffset f mod 8)
      in if bitShift < 0 then Inl ValueError
         else case unpack_from_L buf startByte of
                Inl e \<Rightarrow> Inl e
              | Inr valuePtr \<Rightarrow>
                  pack_result buf startByte
                    ((valuePtr AND NOT (push_bit (nat bitShift) bitMask)) OR push_bit (nat bitShift) v))"
  by (simp add: set_field_def setField_def pack_result_def Let_def split: sum.splits)

lemma uint_byte_mod: "uint (d :: byte) mod 256 = uint d"
  using uint_lt2p[of d] by simp

lemma be_u32_4: "be_u32 [a, b, c, d] =
  concat_bit 8 (uint d) (concat_bit 8 (uint c) (concat_bit 8 (uint b) (uint a)))"
  by (simp add: be_u32_def concat_bit_eq take_bit_eq_mod push_bit_eq_mult uint_byte_mod)

lemma bit_be_u32_4:
  "bit (be_u32 [a, b, c, d]) n \<longleftrightarrow>
     (if n < 8 then bit d n else if n < 16 then bit c (n - 8)
      else if n < 24 then bit b (n - 16) else if n < 32 then bit a (n - 24) else False)"
  by (auto simp add: be_u32_4 bit_concat_bit_iff bit_uint_iff dest: bit_imp_le_length)

lemma bytes_to_bits_nth:
  "p < 8 * length buf \<Longrightarrow> bytes_to_bits buf ! p = bit (buf ! (p div 8)) (7 - p mod 8)"
proof (induction buf arbitrary: p)
  case Nil
  then show ?case by simp
next
  case (Cons b buf)
  show ?case
  proof (cases "p < 8")
    case True
    then show ?thesis by (simp add: bytes_to_bits_def byte_bits_def nth_append)
  next
    case False
    then have "bytes_to_bits (b # buf) ! p = bytes_to_bits buf ! (p - 8)"
      by (simp add: bytes_to_bits_def byte_bits_def nth_append)
    moreover have "p - 8 < 8 * length buf" using Cons.prems False by simp
    moreover have "(p - 8) div 8 = p div 8 - 1" "(p - 8) mod 8 = p mod 8" "p div 8 > 0"
      using False by (simp_all add: le_div_geq le_mod_geq)
    ultimately show ?thesis using Cons.IH[of "p - 8"] by (simp add: nth_Cons')
  qed
qed

lemma length_bytes_to_bits: "length (bytes_to_bits buf) = 8 * length buf"
  by (induction buf) (simp_all add: bytes_to_bits_def byte_bits_def)


lemma take4_drop:
  assumes "s + 4 \<le> length buf"
  shows "take 4 (drop s buf) = [buf ! s, buf ! (s + 1), buf ! (s + 2), buf ! (s + 3)]"
proof -
  have 0: "drop s buf = buf ! s # drop (Suc s) buf"
    using assms by (simp add: Cons_nth_drop_Suc)
  have 1: "drop (Suc s) buf = buf ! (Suc s) # drop (Suc (Suc s)) buf"
    using assms by (simp add: Cons_nth_drop_Suc)
  have 2: "drop (Suc (Suc s)) buf = buf ! (Suc (Suc s)) # drop (Suc (Suc (Suc s))) buf"
    using assms by (simp add: Cons_nth_drop_Suc)
  have 3: "drop (Suc (Suc (Suc s))) buf
             = buf ! (Suc (Suc (Suc s))) # drop (Suc (Suc (Suc (Suc s)))) buf"
    using assms by (simp add: Cons_nth_drop_Suc)
  have "take 4 (drop s buf) = take (Suc (Suc (Suc (Suc 0)))) (drop s buf)"
    by (simp add: numeral_eq_Suc)
  also have "\<dots> = [buf ! s, buf ! Suc s, buf ! Suc (Suc s), buf ! Suc (Suc (Suc s))]"
    by (simp add: 0 1 2 3)
  finally show ?thesis by (simp add: numeral_eq_Suc)
qed

lemma bit_window_j:
  assumes "s + 4 \<le> length buf" "j < 32"
  shows "bit (be_u32 (take 4 (drop s buf))) (31 - j) = bytes_to_bits buf ! (8 * s + j)"
proof -
  have p: "8 * s + j < 8 * length buf" using assms by simp
  have d: "(8 * s + j) div 8 = s + j div 8" "(8 * s + j) mod 8 = j mod 8"
    by simp_all
  consider "j < 8" | "8 \<le> j" "j < 16" | "16 \<le> j" "j < 24" | "24 \<le> j" "j < 32"
    using assms(2) by linarith
  then show ?thesis
  proof cases
    case 1
    then have "j div 8 = 0" "j mod 8 = j" by simp_all
    moreover have "31 - j - 24 = 7 - j" "\<not> 31 - j < 24" "31 - j < 32" using 1 by simp_all
    ultimately show ?thesis using 1
      by (simp add: take4_drop[OF assms(1)] bit_be_u32_4 bytes_to_bits_nth[OF p] d)
  next
    case 2
    then have "j div 8 = 1" "j mod 8 = j - 8" by presburger+
    moreover have "31 - j - 16 = 7 - (j - 8)" "\<not> 31 - j < 16" "31 - j < 24" using 2 by simp_all
    ultimately show ?thesis using 2
      by (simp add: take4_drop[OF assms(1)] bit_be_u32_4 bytes_to_bits_nth[OF p] d)
  next
    case 3
    then have "j div 8 = 2" "j mod 8 = j - 16" by presburger+
    moreover have "31 - j - 8 = 7 - (j - 16)" "\<not> 31 - j < 8" "31 - j < 16" using 3 by simp_all
    ultimately show ?thesis using 3
      by (simp add: take4_drop[OF assms(1)] bit_be_u32_4 bytes_to_bits_nth[OF p] d)
  next
    case 4
    then have "j div 8 = 3" "j mod 8 = j - 24" by presburger+
    moreover have "31 - j = 7 - (j - 24)" "31 - j < 8" using 4 by simp_all
    ultimately show ?thesis using 4
      by (simp add: take4_drop[OF assms(1)] bit_be_u32_4 bytes_to_bits_nth[OF p] d)
  qed
qed

lemma be_u32_nonneg: "0 \<le> be_u32 [a, b, c, d]"
  by (simp add: be_u32_def)

lemma be_u32_bound: "be_u32 [a, b, c, d] < 2 ^ 32"
proof -
  have "take_bit 32 (be_u32 [a, b, c, d]) = be_u32 [a, b, c, d]"
    by (rule bit_eqI) (auto simp add: bit_take_bit_iff bit_be_u32_4 split: if_splits)
  then show ?thesis
    by (metis take_bit_int_less_exp)
qed

lemma be_u32_u32_be:
  assumes "0 \<le> w" "w < 2 ^ 32"
  shows "be_u32 (u32_be w) = w"
proof (rule bit_eqI)
  fix n
  have w: "take_bit 32 w = w" using assms by (simp add: take_bit_int_eq_self)
  have hi: "\<not> n < 32 \<Longrightarrow> \<not> bit w n"
    by (metis w bit_take_bit_iff)
  show "bit (be_u32 (u32_be w)) n = bit w n"
    using hi by (auto simp add: u32_be_def bit_be_u32_4 bit_word_of_int_iff bit_drop_bit_eq)
qed


lemma getField_eq:
  assumes "fits buf f"
  shows "getField buf f =
    Inr (drop_bit (shift_of f) (be_u32 (take 4 (drop (BitOffset f div 8) buf))) AND mask (LengthBits f))"
proof -
  have "4 * 8 - int (LengthBits f) - int (BitOffset f mod 8) = int (shift_of f)"
    using assms by (simp add: fits_def shift_of_def)
  then show ?thesis using assms
    by (simp add: getField_def unpack_from_L_def fits_def Let_def mask_eq_exp_minus_1)
qed

lemma setField_eq:
  assumes "fits buf f"
  shows "set_field buf f v =
    pack_result buf (BitOffset f div 8)
      ((be_u32 (take 4 (drop (BitOffset f div 8) buf)) AND NOT (push_bit (shift_of f) (mask (LengthBits f))))
        OR push_bit (shift_of f) v)"
proof -
  have "4 * 8 - int (LengthBits f) - int (BitOffset f mod 8) = int (shift_of f)"
    using assms by (simp add: fits_def shift_of_def)
  then show ?thesis using assms
    by (simp add: set_field_unfold unpack_from_L_def fits_def Let_def mask_eq_exp_minus_1)
qed

lemma getField_Inr_fits: "getField buf f = Inr v \<Longrightarrow> fits buf f"
  by (auto simp add: getField_def unpack_from_L_def fits_def Let_def split: if_splits)

lemma setField_Inr_fits: "set_field buf f v = Inr buf' \<Longrightarrow> fits buf f"
  by (auto simp add: set_field_unfold unpack_from_L_def fits_def Let_def split: if_splits)


lemma bit_getField:
  assumes "getField buf f = Inr v"
  shows "bit v n \<longleftrightarrow> n < LengthBits f \<and> bytes_to_bits buf ! (BitOffset f + LengthBits f - 1 - n)"
proof -
  have fit: "fits buf f" using assms by (rule getField_Inr_fits)
  let ?s = "BitOffset f div 8" and ?r = "BitOffset f mod 8" and ?L = "LengthBits f"
  have v: "v = drop_bit (shift_of f) (be_u32 (take 4 (drop ?s buf))) AND mask ?L"
    using assms getField_eq[OF fit] by simp
  show ?thesis
  proof (cases "n < ?L")
    case False
    then show ?thesis by (simp add: v bit_and_iff bit_mask_iff)
  next
    case True
    define j where "j = ?r + ?L - 1 - n"
    have off: "BitOffset f = 8 * ?s + ?r" by simp
    have le: "?L + ?r \<le> 32" using fit by (simp add: fits_def)
    have j1: "j < 32" using True le unfolding j_def by linarith
    have j2: "shift_of f + n = 31 - j" using True le unfolding j_def shift_of_def by linarith
    have "8 * ?s + (?r + ?L - 1 - n) = (8 * ?s + ?r) + ?L - 1 - n" using True by linarith
    then have j3: "8 * ?s + j = BitOffset f + ?L - 1 - n" unfolding j_def by simp
    note j = j1 j2 j3
    have "bit v n = bit (be_u32 (take 4 (drop ?s buf))) (31 - j)"
      using True j(2) by (simp add: v bit_and_iff bit_mask_iff bit_drop_bit_eq add.commute)
    also have "\<dots> = bytes_to_bits buf ! (8 * ?s + j)"
      using fit j(1) by (intro bit_window_j) (simp_all add: fits_def)
    finally show ?thesis using True j(3) by simp
  qed
qed

section \<open>Odd parity\<close>

lemma finite_bits_nonneg:
  assumes "0 \<le> (v :: int)"
  shows "finite {n. bit v n}"
proof -
  have "v < 2 ^ nat v"
    using assms by (metis int_nat_eq of_nat_less_two_power)
  then have "take_bit (nat v) v = v"
    using assms by (simp add: take_bit_int_eq_self)
  then have "{n. bit v n} \<subseteq> {..< nat v}"
    by (metis (mono_tags, lifting) bit_take_bit_iff lessThan_iff mem_Collect_eq subsetI)
  then show ?thesis by (rule finite_subset) simp
qed

lemma bits_unfold:
  "{n. bit (v :: int) n} = (if odd v then {0} else {}) \<union> Suc ` {n. bit (v div 2) n}"
proof (rule set_eqI)
  fix n
  show "n \<in> {n. bit v n} \<longleftrightarrow> n \<in> (if odd v then {0} else {}) \<union> Suc ` {n. bit (v div 2) n}"
    by (cases n) (auto simp add: bit_0 bit_Suc)
qed

lemma popcount_unfold:
  assumes "0 \<le> v"
  shows "popcount v = (if odd v then 1 else 0) + popcount (v div 2)"
proof -
  have fin: "finite {n. bit (v div 2) n}"
    using assms by (intro finite_bits_nonneg) simp
  have "card ((if odd v then {0} else {}) \<union> Suc ` {n. bit (v div 2) n})
          = card (if odd v then {0::nat} else {}) + card (Suc ` {n. bit (v div 2) n})"
    using fin by (intro card_Un_disjoint) auto
  also have "card (Suc ` {n. bit (v div 2) n}) = card {n. bit (v div 2) n}"
    by (rule card_image) simp
  finally show ?thesis
    unfolding popcount_def by (subst bits_unfold) simp
qed

lemma popcount_0: "popcount 0 = 0"
  by (simp add: popcount_def)

lemma parity_loop_popcount:
  "0 \<le> v \<Longrightarrow> parity_loop v p = Some (p \<noteq> odd (popcount v))"
proof (induction "nat v" arbitrary: v p rule: less_induct)
  case less
  show ?case
  proof (cases "v = 0")
    case True
    then show ?thesis by (subst parity_loop.simps) (simp add: popcount_0)
  next
    case False
    with less.prems have pos: "0 < v" by simp
    then have "nat (v div 2) < nat v" "0 \<le> v div 2" by simp_all
    then have IH: "\<And>q. parity_loop (v div 2) q = Some (q \<noteq> odd (popcount (v div 2)))"
      using less.hyps by blast
    have "parity_loop v p = parity_loop (v div 2) (if odd v then \<not> p else p)"
      using False by (subst parity_loop.simps) (simp add: drop_bit_Suc and_one_eq mod_2_eq_odd)
    then show ?thesis
      using popcount_unfold[OF less.prems] by (auto simp add: IH)
  qed
qed

lemma calculateParity_popcount:
  "0 \<le> v \<Longrightarrow> calculateParity v = Some (odd (popcount v))"
  by (simp add: calculateParity_def parity_loop_popcount)


lemma parity_loop_Some_nonneg:
  assumes "parity_loop v p = Some y"
  shows "0 \<le> v"
proof (rule parity_loop.raw_induct[where P = "\<lambda>v p y. 0 \<le> v", OF _ assms])
  fix loop :: "int \<Rightarrow> bool \<Rightarrow> bool option" and v p y
  assume IH: "\<And>v p y. loop v p = Some y \<Longrightarrow> 0 \<le> v"
    and eq: "(if v \<noteq> 0 then loop (drop_bit 1 v) (if v AND 1 \<noteq> 0 then \<not> p else p) else Some p) = Some y"
  show "0 \<le> v"
  proof (cases "v = 0")
    case True
    then show ?thesis by simp
  next
    case False
    then have "loop (drop_bit 1 v) (if v AND 1 \<noteq> 0 then \<not> p else p) = Some y"
      using eq by simp
    then have "0 \<le> drop_bit 1 v" by (rule IH)
    then show ?thesis by (simp add: drop_bit_Suc)
  qed
qed

lemma calculateParity_negative: "v < 0 \<Longrightarrow> calculateParity v = None"
  using parity_loop_Some_nonneg[of v False] by (cases "calculateParity v") (auto simp add: calculateParity_def)

text \<open>
  C4. For every non-negative integer, \<open>calculateParity\<close> returns, and its result is
  true exactly when the population count is odd; on \<open>0x0B\<close> it is true, on \<open>0x00\<close> and
  \<open>0xFF\<close> it is false.
\<close>

theorem calculateParity_odd_popcount:
  assumes "0 \<le> v"
  shows "calculateParity v = Some (odd (popcount v))
       \<and> calculateParity 0x0B = Some True
       \<and> calculateParity 0x00 = Some False
       \<and> calculateParity 0xFF = Some False"
proof (intro conjI)
  show "calculateParity v = Some (odd (popcount v))"
    using assms by (rule calculateParity_popcount)
qed (simp_all add: calculateParity_def parity_loop.simps)

theorem calculateParity_odd_popcount_witness:
  "(0::int) \<le> 6 \<and> calculateParity 6 = Some (odd (popcount 6)) \<and> calculateParity 6 = Some False"
  using calculateParity_odd_popcount[of 6]
  by (simp add: calculateParity_def parity_loop.simps)

section \<open>What a field write does to the bits of the buffer\<close>

lemma pack_into_L_Inr:
  assumes "pack_result buf s w = Inr buf'"
  shows "length buf' = length buf"
    and "s + 4 \<le> length buf"
    and "be_u32 (take 4 (drop s buf')) = w"
    and "\<And>i. i < length buf \<Longrightarrow> i < s \<or> s + 4 \<le> i \<Longrightarrow> buf' ! i = buf ! i"
proof -
  have w: "0 \<le> w" "w < 2 ^ 32" and s: "s + 4 \<le> length buf"
    and buf': "buf' = take s buf @ u32_be w @ drop (s + 4) buf"
    using assms by (auto simp add: pack_result_eq split: if_splits)
  have len: "length (u32_be w) = 4" by (simp add: u32_be_def)
  show "length buf' = length buf" using s by (simp add: buf' len)
  show "s + 4 \<le> length buf" by (rule s)
  have "drop s buf' = u32_be w @ drop (s + 4) buf"
    using s by (simp add: buf')
  then have "take 4 (drop s buf') = u32_be w" by (simp add: len)
  then show "be_u32 (take 4 (drop s buf')) = w" using w by (simp add: be_u32_u32_be)
  fix i assume i: "i < length buf" "i < s \<or> s + 4 \<le> i"
  show "buf' ! i = buf ! i"
  proof (cases "i < s")
    case True
    then show ?thesis using s by (simp add: buf' nth_append)
  next
    case False
    then have ge: "s + 4 \<le> i" using i by simp
    then have "\<not> i < s" "\<not> i - s < 4" "i - s - 4 = i - (s + 4)" by linarith+
    then have "buf' ! i = drop (s + 4) buf ! (i - (s + 4))"
      using s by (simp add: buf' nth_append len)
    also have "\<dots> = buf ! i" using ge s i by simp
    finally show ?thesis .
  qed
qed

lemma bits_after_pack:
  assumes "pack_result buf s w = Inr buf'" "p < 8 * length buf"
  shows "bytes_to_bits buf' ! p =
           (if 8 * s \<le> p \<and> p < 8 * s + 32 then bit w (8 * s + 31 - p) else bytes_to_bits buf ! p)"
proof (cases "8 * s \<le> p \<and> p < 8 * s + 32")
  case True
  define j where "j = p - 8 * s"
  have j: "j < 32" "p = 8 * s + j" "8 * s + 31 - p = 31 - j"
    using True unfolding j_def by linarith+
  have "s + 4 \<le> length buf'"
    using pack_into_L_Inr(1,2)[OF assms(1)] by simp
  then have "bit (be_u32 (take 4 (drop s buf'))) (31 - j) = bytes_to_bits buf' ! (8 * s + j)"
    using j(1) by (rule bit_window_j)
  then show ?thesis
    using True j pack_into_L_Inr(3)[OF assms(1)] by simp
next
  case False
  then have "p div 8 < s \<or> s + 4 \<le> p div 8" by (auto simp add: not_le not_less)
  moreover have "p div 8 < length buf" using assms(2) by simp
  ultimately have "buf' ! (p div 8) = buf ! (p div 8)"
    using pack_into_L_Inr(4)[OF assms(1)] by blast
  moreover have "p < 8 * length buf'" using assms(2) pack_into_L_Inr(1)[OF assms(1)] by simp
  ultimately show ?thesis using False assms(2) by (auto simp add: bytes_to_bits_nth)
qed


lemma setField_bits_general:
  assumes set: "set_field buf f v = Inr buf'" and p: "p < 8 * length buf"
  shows "bytes_to_bits buf' ! p =
           (if p \<in> window f then bit v (BitOffset f + LengthBits f - 1 - p)
            else bytes_to_bits buf ! p \<or>
                 (8 * (BitOffset f div 8) \<le> p \<and> p < BitOffset f \<and>
                  bit v (BitOffset f + LengthBits f - 1 - p)))"
proof -
  let ?s = "BitOffset f div 8" and ?r = "BitOffset f mod 8" and ?L = "LengthBits f"
  let ?W = "be_u32 (take 4 (drop ?s buf))"
  let ?new = "(?W AND NOT (push_bit (shift_of f) (mask ?L))) OR push_bit (shift_of f) v"
  have fit: "fits buf f" using set by (rule setField_Inr_fits)
  have le: "?L + ?r \<le> 32" and s4: "?s + 4 \<le> length buf" using fit by (simp_all add: fits_def)
  have off: "BitOffset f = 8 * ?s + ?r" by simp
  have r: "?r < 8" by simp
  have pack: "pack_result buf ?s ?new = Inr buf'"
    using set setField_eq[OF fit, of v] by simp
  note after = bits_after_pack[OF pack p]
  show ?thesis
  proof (cases "8 * ?s \<le> p \<and> p < 8 * ?s + 32")
    case False
    then have "p \<notin> window f" "\<not> (8 * ?s \<le> p \<and> p < BitOffset f)"
      using le r off unfolding window_def atLeastLessThan_iff by linarith+
    then show ?thesis using after False by auto
  next
    case True
    define j where "j = p - 8 * ?s"
    have j: "j < 32" "p = 8 * ?s + j" "8 * ?s + 31 - p = 31 - j"
      using True unfolding j_def by linarith+
    have W: "bit ?W (31 - j) = bytes_to_bits buf ! p"
      using bit_window_j[OF s4 j(1)] j(2) by simp
    have new: "bytes_to_bits buf' ! p = bit ?new (31 - j)"
      using after True j(3) by simp
    have sh: "shift_of f \<le> 31 - j \<longleftrightarrow> j < ?L + ?r"
      using le j(1) unfolding shift_of_def by linarith
    have idx: "j < ?L + ?r \<Longrightarrow> 31 - j - shift_of f = ?r + ?L - 1 - j"
      using le j(1) unfolding shift_of_def by linarith
    have pos: "BitOffset f + ?L - 1 - p = ?r + ?L - 1 - j"
      using j(2) off by linarith
    have win: "p \<in> window f \<longleftrightarrow> ?r \<le> j \<and> j < ?L + ?r"
      using j(2) off unfolding window_def atLeastLessThan_iff by linarith
    have lt: "p < BitOffset f \<longleftrightarrow> j < ?r"
      using j(2) off by linarith
    have m: "j < ?L + ?r \<Longrightarrow> ?r + ?L - 1 - j < ?L \<longleftrightarrow> ?r \<le> j"
      by linarith
    show ?thesis
      unfolding new pos win lt
      using True m idx
      by (auto simp add: bit_or_iff bit_and_iff bit_not_iff bit_push_bit_iff bit_mask_iff W sh)
  qed
qed

lemma setField_length:
  "set_field buf f v = Inr buf' \<Longrightarrow> length buf' = length buf"
  using setField_eq[OF setField_Inr_fits, of buf f v buf' v] pack_into_L_Inr(1)
  by metis

lemma window_in_buffer:
  assumes "fits buf f" "p \<in> window f"
  shows "p < 8 * length buf"
proof -
  have "BitOffset f = 8 * (BitOffset f div 8) + BitOffset f mod 8" by simp
  then show ?thesis
    using assms unfolding fits_def window_def atLeastLessThan_iff by linarith
qed

lemma setField_nonneg:
  assumes "set_field buf f v = Inr buf'"
  shows "0 \<le> v"
proof (rule ccontr)
  assume "\<not> 0 \<le> v"
  then have neg: "v < 0" by simp
  have fit: "fits buf f" using assms by (rule setField_Inr_fits)
  let ?new = "(be_u32 (take 4 (drop (BitOffset f div 8) buf))
                 AND NOT (push_bit (shift_of f) (mask (LengthBits f)))) OR push_bit (shift_of f) v"
  have "?new < 0" using neg by simp
  then have "\<exists>e. pack_result buf (BitOffset f div 8) ?new = Inl e"
    by (simp add: pack_result_eq)
  then show False using assms setField_eq[OF fit, of v] by simp
qed

lemma setField_bits:
  assumes "set_field buf f v = Inr buf'" "v < 2 ^ LengthBits f" "p < 8 * length buf"
  shows "bytes_to_bits buf' ! p =
           (if p \<in> window f then bit v (BitOffset f + LengthBits f - 1 - p)
            else bytes_to_bits buf ! p)"
proof -
  have v0: "0 \<le> v" using assms(1) by (rule setField_nonneg)
  then have tb: "take_bit (LengthBits f) v = v"
    using assms(2) by (simp add: take_bit_int_eq_self)
  have hi: "p < BitOffset f \<Longrightarrow> \<not> bit v (BitOffset f + LengthBits f - 1 - p)"
  proof -
    assume "p < BitOffset f"
    then have "\<not> BitOffset f + LengthBits f - 1 - p < LengthBits f" by linarith
    then show ?thesis by (metis tb bit_take_bit_iff)
  qed
  show ?thesis
    using setField_bits_general[OF assms(1) assms(3)] hi by auto
qed

lemma setField_succeeds:
  assumes fit: "fits buf f" and v: "0 \<le> v" "v < 2 ^ LengthBits f"
  shows "\<exists>buf'. set_field buf f v = Inr buf'"
proof -
  let ?s = "BitOffset f div 8"
  let ?W = "be_u32 (take 4 (drop ?s buf))"
  let ?new = "(?W AND NOT (push_bit (shift_of f) (mask (LengthBits f)))) OR push_bit (shift_of f) v"
  have s4: "?s + 4 \<le> length buf" and le: "LengthBits f + BitOffset f mod 8 \<le> 32"
    using fit by (simp_all add: fits_def)
  have W: "0 \<le> ?W" "?W < 2 ^ 32"
    unfolding take4_drop[OF s4] by (rule be_u32_nonneg, rule be_u32_bound)
  have nn: "0 \<le> ?new" using W(1) v(1) by simp
  have "take_bit 32 ?new = ?new"
  proof (rule bit_eqI)
    fix n
    have tW: "take_bit 32 ?W = ?W" using W by (simp add: take_bit_int_eq_self)
    have tv: "take_bit (LengthBits f) v = v" using v by (simp add: take_bit_int_eq_self)
    have a: "bit ?W n \<Longrightarrow> n < 32" by (metis tW bit_take_bit_iff)
    have b: "bit v (n - shift_of f) \<Longrightarrow> shift_of f \<le> n \<Longrightarrow> n < 32"
    proof -
      assume "bit v (n - shift_of f)" "shift_of f \<le> n"
      then have "n - shift_of f < LengthBits f" by (metis tv bit_take_bit_iff)
      then show "n < 32" using le \<open>shift_of f \<le> n\<close> unfolding shift_of_def by linarith
    qed
    show "bit (take_bit 32 ?new) n = bit ?new n"
      using a b by (auto simp add: bit_take_bit_iff bit_or_iff bit_and_iff bit_push_bit_iff)
  qed
  then have "?new < 2 ^ 32" by (metis take_bit_int_less_exp)
  then show ?thesis
    using nn s4 by (simp add: setField_eq[OF fit] pack_result_eq)
qed

lemma getField_not_fits:
  assumes "\<not> fits buf f"
  shows "getField buf f =
           (if BitOffset f div 8 + 4 \<le> length buf then Inl ValueError
            else Inl (StructError BufferTooSmall))"
  using assms by (auto simp add: getField_def fits_def unpack_from_L_def Let_def)

lemma getField_cong:
  assumes len: "length buf' = length buf"
    and same: "\<And>p. p \<in> window f \<Longrightarrow> bytes_to_bits buf' ! p = bytes_to_bits buf ! p"
  shows "getField buf' f = getField buf f"
proof (cases "fits buf f")
  case False
  then have "\<not> fits buf' f" using len by (simp add: fits_def)
  then show ?thesis using False len by (simp add: getField_not_fits)
next
  case True
  then have fit': "fits buf' f" using len by (simp add: fits_def)
  obtain a where a: "getField buf f = Inr a" using getField_eq[OF True] by blast
  obtain b where b: "getField buf' f = Inr b" using getField_eq[OF fit'] by blast
  have "b = a"
  proof (rule bit_eqI)
    fix n
    show "bit b n = bit a n"
    proof (cases "n < LengthBits f")
      case False
      then show ?thesis by (simp add: bit_getField[OF a] bit_getField[OF b])
    next
      case True
      then have "BitOffset f + LengthBits f - 1 - n \<in> window f"
        unfolding window_def atLeastLessThan_iff by linarith
      then show ?thesis using True by (simp add: bit_getField[OF a] bit_getField[OF b] same)
    qed
  qed
  then show ?thesis using a b by simp
qed

lemma getField_setField_other:
  assumes "set_field buf f v = Inr buf'" "v < 2 ^ LengthBits f" "window g \<inter> window f = {}"
  shows "getField buf' g = getField buf g"
proof (cases "fits buf g")
  case False
  have len: "length buf' = length buf" using assms(1) by (rule setField_length)
  then have "\<not> fits buf' g" using False by (simp add: fits_def)
  then show ?thesis using False len by (simp add: getField_not_fits)
next
  case True
  show ?thesis
  proof (rule getField_cong)
    show "length buf' = length buf" using assms(1) by (rule setField_length)
    fix p assume p: "p \<in> window g"
    then have "p \<notin> window f" using assms(3) by blast
    moreover have "p < 8 * length buf" using True p by (rule window_in_buffer)
    ultimately show "bytes_to_bits buf' ! p = bytes_to_bits buf ! p"
      using setField_bits[OF assms(1) assms(2)] by simp
  qed
qed

lemma getField_setField_same:
  assumes "set_field buf f v = Inr buf'" "v < 2 ^ LengthBits f"
  shows "getField buf' f = Inr v"
proof -
  have fit: "fits buf f" using assms(1) by (rule setField_Inr_fits)
  have len: "length buf' = length buf" using assms(1) by (rule setField_length)
  then have fit': "fits buf' f" using fit by (simp add: fits_def)
  obtain b where b: "getField buf' f = Inr b" using getField_eq[OF fit'] by blast
  have v0: "0 \<le> v" using assms(1) by (rule setField_nonneg)
  then have tb: "take_bit (LengthBits f) v = v"
    using assms(2) by (simp add: take_bit_int_eq_self)
  have "b = v"
  proof (rule bit_eqI)
    fix n
    show "bit b n = bit v n"
    proof (cases "n < LengthBits f")
      case False
      then have "\<not> bit v n" by (metis tb bit_take_bit_iff)
      then show ?thesis using False by (simp add: bit_getField[OF b])
    next
      case True
      let ?p = "BitOffset f + LengthBits f - 1 - n"
      have in_w: "?p \<in> window f"
        using True unfolding window_def atLeastLessThan_iff by linarith
      then have "?p < 8 * length buf" using fit by (intro window_in_buffer)
      then have "bytes_to_bits buf' ! ?p = bit v (BitOffset f + LengthBits f - 1 - ?p)"
        using setField_bits[OF assms(1) assms(2)] in_w by simp
      moreover have "BitOffset f + LengthBits f - 1 - ?p = n" using True by linarith
      ultimately show ?thesis using True by (simp add: bit_getField[OF b])
    qed
  qed
  then show ?thesis using b by simp
qed

section \<open>The token-string example\<close>

lemma from_string_example_buffer:
  "from_string ''- 190 440 f 5 00 25 74 9C 04'' = Some (Inr example_message)"
  by code_simp

lemma example_fields:
  "getField example_message Broadcast = Inr UNICAST"
  "getField example_message MasterAddress = Inr 0x190"
  "getField example_message SlaveAddress = Inr 0x440"
  "getField example_message Control = Inr 0xF"
  "getField example_message DataLength = Inr 7"
  by code_simp+

lemma example_data:
  "getData example_message = Inr [0x0F, 0x05, 0x00, 0x25, 0x74, 0x9C, 0x04]"
  by code_simp

lemma example_str:
  "to_str example_message = Inr ''- 190 440 f  7 : 0f 05 00 25 74 9c 04 ''"
  by code_simp

lemma from_string_other_token:
  "\<exists>m. from_string ''- 190 440 0 5 00 25 74 9C 04'' = Some (Inr m)
       \<and> getField m Control = Inr 0xF
       \<and> getData m = Inr [0x00, 0x05, 0x00, 0x25, 0x74, 0x9C, 0x04]"
proof -
  have "from_string ''- 190 440 0 5 00 25 74 9C 04'' =
          Some (Inr ([140, 133, 16, 31, 65, 240, 4, 21, 0, 73, 119, 70, 113, 4, 192] @ replicate 53 0))"
    by code_simp
  moreover have "getField ([140, 133, 16, 31, 65, 240, 4, 21, 0, 73, 119, 70, 113, 4, 192] @ replicate 53 0) Control = Inr 0xF"
    by code_simp
  moreover have "getData ([140, 133, 16, 31, 65, 240, 4, 21, 0, 73, 119, 70, 113, 4, 192] @ replicate 53 0)
      = Inr [0x00, 0x05, 0x00, 0x25, 0x74, 0x9C, 0x04]"
    by code_simp
  ultimately show ?thesis by blast
qed


text \<open>
  C3. The token string \<open>- 190 440 f 5 00 25 74 9C 04\<close> constructs a message whose
  broadcast bit is UNICAST, master address \<open>0x190\<close>, slave address \<open>0x440\<close>, control
  \<open>0xF\<close>, data length 7 and data \<open>0F 05 00 25 74 9C 04\<close>, and whose display string
  shows these addresses, the length 7 and the data. With \<open>0\<close> as fourth token the control
  field is still \<open>0xF\<close> and the token is the first data byte.
\<close>

theorem from_string_example:
  "(\<exists>m. from_string ''- 190 440 f 5 00 25 74 9C 04'' = Some (Inr m)
        \<and> getField m Broadcast = Inr UNICAST
        \<and> getField m MasterAddress = Inr 0x190
        \<and> getField m SlaveAddress = Inr 0x440
        \<and> getField m Control = Inr 0xF
        \<and> getField m DataLength = Inr 7
        \<and> getData m = Inr [0x0F, 0x05, 0x00, 0x25, 0x74, 0x9C, 0x04]
        \<and> to_str m = Inr ''- 190 440 f  7 : 0f 05 00 25 74 9c 04 '')
   \<and> (\<exists>m. from_string ''- 190 440 0 5 00 25 74 9C 04'' = Some (Inr m)
        \<and> getField m Control = Inr 0xF
        \<and> getData m = Inr [0x00, 0x05, 0x00, 0x25, 0x74, 0x9C, 0x04])"
  using from_string_example_buffer example_fields example_data example_str
    from_string_other_token
  by blast

section \<open>Constructed messages are valid\<close>

lemma bind_res_simps [simp]:
  "bind_res (Some (Inr x)) k = k x"
  "bind_res (Some (Inl e)) k = Some (Inl e)"
  "bind_res None k = None"
  by (simp_all add: bind_res_def)

lemma bind_res_return: "bind_res m (\<lambda>b. Some (Inr b)) = m"
  by (simp add: bind_res_def split: option.splits sum.splits)

lemma bind_e_simps [simp]:
  "bind_e (Inr x) k = k x"
  "bind_e (Inl e) k = Inl e"
  by (simp_all add: bind_e_def)

lemma parity_res_nonneg: "0 \<le> v \<Longrightarrow> parity_res v = Some (Inr (par v))"
  by (simp add: parity_res_def par_def calculateParity_popcount)

lemma par_range: "0 \<le> par v" "par v < 2 ^ 1"
  by (simp_all add: par_def)

lemma par_0: "par 0 = 0"
  by (simp add: par_def popcount_0)

lemma frame_refl: "frame W buf buf"
  by (simp add: frame_def)

lemma frame_length: "frame W buf buf' \<Longrightarrow> length buf' = length buf"
  by (simp add: frame_def)

lemma frame_trans:
  "frame W1 a b \<Longrightarrow> frame W2 b c \<Longrightarrow> frame (W1 \<union> W2) a c"
  by (simp add: frame_def)

lemma frame_mono: "frame W a b \<Longrightarrow> W \<subseteq> W' \<Longrightarrow> frame W' a b"
  by (auto simp add: frame_def)

lemma setField_is_frame:
  "set_field buf f v = Inr buf' \<Longrightarrow> v < 2 ^ LengthBits f \<Longrightarrow> frame (window f) buf buf'"
  by (simp add: frame_def setField_length setField_bits)

lemma fits_frame: "frame W buf buf' \<Longrightarrow> fits buf' f = fits buf f"
  by (simp add: fits_def frame_def)

lemma getField_frame:
  assumes "frame W buf buf'" "window g \<inter> W = {}"
  shows "getField buf' g = getField buf g"
proof (cases "fits buf g")
  case False
  then show ?thesis
    using fits_frame[OF assms(1), of g] frame_length[OF assms(1)] by (simp add: getField_not_fits)
next
  case True
  show ?thesis
  proof (rule getField_cong)
    show "length buf' = length buf" using assms(1) by (rule frame_length)
    fix p assume p: "p \<in> window g"
    then have "p \<notin> W" using assms(2) by blast
    moreover have "p < 8 * length buf" using True p by (rule window_in_buffer)
    ultimately show "bytes_to_bits buf' ! p = bytes_to_bits buf ! p"
      using assms(1) by (simp add: frame_def)
  qed
qed

lemma parity_ok_frame:
  assumes "parity_ok buf f fP" "frame W buf buf'" "window f \<inter> W = {}" "window fP \<inter> W = {}"
  shows "parity_ok buf' f fP"
  using assms by (simp add: parity_ok_def getField_frame)

lemma set_step:
  assumes "fits buf f" "0 \<le> v" "v < 2 ^ LengthBits f"
  obtains buf' where "set_field buf f v = Inr buf'" "frame (window f) buf buf'"
    "getField buf' f = Inr v"
proof -
  obtain buf' where s: "set_field buf f v = Inr buf'"
    using setField_succeeds[OF assms] by blast
  show thesis
    using that[OF s setField_is_frame[OF s assms(3)] getField_setField_same[OF s assms(3)]] .
qed

text \<open>A field and its parity bit.\<close>

lemma write2:
  assumes fit: "fits buf f" "fits buf fP" and one: "LengthBits fP = 1"
    and v: "0 \<le> v" "v < 2 ^ LengthBits f"
    and dis: "window f \<inter> window fP = {}"
  shows "\<exists>buf'. frame (window f \<union> window fP) buf buf'
           \<and> getField buf' f = Inr v \<and> getField buf' fP = Inr (par v)
           \<and> (\<forall>K :: byte list \<Rightarrow> byte list res. bind_res (Some (set_field buf f v)) (\<lambda>b.
                    bind_res (parity_res v) (\<lambda>p.
                    bind_res (Some (set_field b fP p)) K)) = K buf')"
proof -
  obtain b1 where 1: "set_field buf f v = Inr b1" "frame (window f) buf b1" "getField b1 f = Inr v"
    using set_step[OF fit(1) v] by blast
  have "fits b1 fP" using fit(2) fits_frame[OF 1(2)] by simp
  moreover have "par v < 2 ^ LengthBits fP" using par_range(2) one by simp
  ultimately obtain b2 where 2: "set_field b1 fP (par v) = Inr b2" "frame (window fP) b1 b2"
    "getField b2 fP = Inr (par v)"
    using set_step[of b1 fP "par v"] par_range(1) by blast
  have "frame (window f \<union> window fP) buf b2" using 1(2) 2(2) by (rule frame_trans)
  moreover have "getField b2 f = Inr v"
    using getField_frame[OF 2(2) dis] 1(3) by simp
  moreover have "\<forall>K :: byte list \<Rightarrow> byte list res. bind_res (Some (set_field buf f v)) (\<lambda>b.
                    bind_res (parity_res v) (\<lambda>p.
                    bind_res (Some (set_field b fP p)) K)) = K b2"
    by (simp add: 1(1) 2(1) parity_res_nonneg[OF v(1)])
  ultimately show ?thesis using 2(3) by blast
qed

text \<open>A field, its parity bit and its acknowledgement bit.\<close>

lemma write3:
  assumes fit: "fits buf f" "fits buf fP" "fits buf fA"
    and one: "LengthBits fP = 1" "LengthBits fA = 1"
    and v: "0 \<le> v" "v < 2 ^ LengthBits f"
    and dis: "window f \<inter> window fP = {}" "window f \<inter> window fA = {}"
      "window fP \<inter> window fA = {}"
  shows "\<exists>buf'. frame (window f \<union> window fP \<union> window fA) buf buf'
           \<and> getField buf' f = Inr v \<and> getField buf' fP = Inr (par v)
           \<and> (\<forall>K :: byte list \<Rightarrow> byte list res. bind_res (Some (set_field buf f v)) (\<lambda>b.
                    bind_res (parity_res v) (\<lambda>p.
                    bind_res (Some (set_field b fP p)) (\<lambda>b.
                    bind_res (Some (set_field b fA DefaultAckVal)) K))) = K buf')"
proof -
  obtain b2 where 2: "frame (window f \<union> window fP) buf b2"
    "getField b2 f = Inr v" "getField b2 fP = Inr (par v)"
    and K2: "\<And>K :: byte list \<Rightarrow> byte list res. bind_res (Some (set_field buf f v)) (\<lambda>b.
                    bind_res (parity_res v) (\<lambda>p.
                    bind_res (Some (set_field b fP p)) K)) = K b2"
    using write2[OF fit(1,2) one(1) v dis(1)] by blast
  have "fits b2 fA" using fit(3) fits_frame[OF 2(1)] by simp
  moreover have "DefaultAckVal < 2 ^ LengthBits fA" "0 \<le> DefaultAckVal"
    using one(2) by (simp_all add: DefaultAckVal_def NAK_def)
  ultimately obtain b3 where 3: "set_field b2 fA DefaultAckVal = Inr b3" "frame (window fA) b2 b3"
    using set_step[of b2 fA DefaultAckVal] by blast
  have "frame (window f \<union> window fP \<union> window fA) buf b3" using 2(1) 3(2) by (rule frame_trans)
  moreover have "getField b3 f = Inr v" "getField b3 fP = Inr (par v)"
    using getField_frame[OF 3(2) dis(2)] getField_frame[OF 3(2) dis(3)] 2(2,3) by simp_all
  moreover have "\<forall>K :: byte list \<Rightarrow> byte list res. bind_res (Some (set_field buf f v)) (\<lambda>b.
                    bind_res (parity_res v) (\<lambda>p.
                    bind_res (Some (set_field b fP p)) (\<lambda>b.
                    bind_res (Some (set_field b fA DefaultAckVal)) K))) = K b3"
  proof
    fix K :: "byte list \<Rightarrow> byte list res"
    show "bind_res (Some (set_field buf f v)) (\<lambda>b.
                    bind_res (parity_res v) (\<lambda>p.
                    bind_res (Some (set_field b fP p)) (\<lambda>b.
                    bind_res (Some (set_field b fA DefaultAckVal)) K))) = K b3"
      using K2[of "\<lambda>b. bind_res (Some (set_field b fA DefaultAckVal)) K"] by (simp add: 3(1))
  qed
  ultimately show ?thesis by blast
qed


lemmas field_defs = Broadcast_def MasterAddress_def MasterAddress_P_def SlaveAddress_def
  SlaveAddress_P_def SlaveAddress_A_def Control_def Control_P_def Control_A_def DataLength_def
  DataLength_P_def DataLength_A_def

lemma fits_named:
  assumes "length buf = 68"
  shows "fits buf Broadcast" "fits buf MasterAddress" "fits buf MasterAddress_P"
    "fits buf SlaveAddress" "fits buf SlaveAddress_P" "fits buf SlaveAddress_A"
    "fits buf Control" "fits buf Control_P" "fits buf Control_A"
    "fits buf DataLength" "fits buf DataLength_P" "fits buf DataLength_A"
  using assms by (simp_all add: fits_def field_defs)

lemma fits_data:
  assumes "length buf = 68" "i \<le> 46"
  shows "fits buf (Data i)" "fits buf (Data_P i)" "fits buf (Data_A i)"
proof -
  have m: "\<And>k :: nat. k mod 8 < 8" by simp
  have d: "(44 + 10 * i) div 8 \<le> 63" "(52 + 10 * i) div 8 \<le> 64" "(53 + 10 * i) div 8 \<le> 64"
    using assms(2) by linarith+
  show "fits buf (Data i)" "fits buf (Data_P i)" "fits buf (Data_A i)"
    using assms(1) d m[of "44 + 10 * i"] m[of "52 + 10 * i"] m[of "53 + 10 * i"]
    by (simp_all add: fits_def Data_def Data_P_def Data_A_def DataFieldLength_def)
qed

lemma window_named:
  "window Broadcast = {0..<1}" "window MasterAddress = {1..<13}" "window MasterAddress_P = {13..<14}"
  "window SlaveAddress = {14..<26}" "window SlaveAddress_P = {26..<27}"
  "window SlaveAddress_A = {27..<28}" "window Control = {28..<32}" "window Control_P = {32..<33}"
  "window Control_A = {33..<34}" "window DataLength = {34..<42}" "window DataLength_P = {42..<43}"
  "window DataLength_A = {43..<44}"
  by (simp_all add: window_def field_defs)

lemma window_data:
  "window (Data i) = {44 + 10 * i ..< 52 + 10 * i}"
  "window (Data_P i) = {52 + 10 * i ..< 53 + 10 * i}"
  "window (Data_A i) = {53 + 10 * i ..< 54 + 10 * i}"
  by (simp_all add: window_def Data_def Data_P_def Data_A_def DataFieldLength_def)

lemma bits_zero:
  assumes "p < 8 * n"
  shows "\<not> bytes_to_bits (replicate n 0) ! p"
proof -
  have "p div 8 < n" using assms by simp
  then show ?thesis using assms by (simp add: bytes_to_bits_nth)
qed

lemma getField_zero:
  assumes "fits (replicate n 0) f"
  shows "getField (replicate n 0) f = Inr 0"
proof -
  obtain a where a: "getField (replicate n 0) f = Inr a" using getField_eq[OF assms] by blast
  have "a = 0"
  proof (rule bit_eqI)
    fix k
    show "bit a k = bit (0 :: int) k"
    proof (cases "k < LengthBits f")
      case False
      then show ?thesis by (simp add: bit_getField[OF a])
    next
      case True
      then have "BitOffset f + LengthBits f - 1 - k \<in> window f"
        unfolding window_def atLeastLessThan_iff by linarith
      then have "BitOffset f + LengthBits f - 1 - k < 8 * n"
        using window_in_buffer[OF assms] by simp
      then show ?thesis by (simp add: bit_getField[OF a] bits_zero)
    qed
  qed
  then show ?thesis using a by simp
qed

lemma parity_ok_zero:
  assumes "fits (replicate n 0) f" "fits (replicate n 0) fP"
  shows "parity_ok (replicate n 0) f fP"
  unfolding parity_ok_def using getField_zero[OF assms(1)] getField_zero[OF assms(2)] par_0
  by (intro exI[of _ 0]) simp

lemma write_broadcast_ok:
  assumes "length buf = 68" "case broadcast of None \<Rightarrow> True | Some b \<Rightarrow> b = 0 \<or> b = 1"
  shows "\<exists>buf'. write_broadcast buf broadcast = Some (Inr buf') \<and> frame {0..<1} buf buf'"
proof (cases "truthy broadcast")
  case False
  then show ?thesis by (simp add: write_broadcast_def frame_refl)
next
  case True
  then obtain b where b: "broadcast = Some b" "b = 1"
    using assms(2) by (cases broadcast) (auto simp add: truthy_def)
  have "(1 :: int) < 2 ^ LengthBits Broadcast" by (simp add: Broadcast_def)
  then obtain buf' where "set_field buf Broadcast 1 = Inr buf'" "frame (window Broadcast) buf buf'"
    using set_step[OF fits_named(1)[OF assms(1)], of 1] by auto
  then show ?thesis using True b by (auto simp add: write_broadcast_def window_named)
qed

lemma write_master_ok:
  assumes len: "length buf = 68"
    and rng: "case master of None \<Rightarrow> True | Some m \<Rightarrow> 0 \<le> m \<and> m < 2 ^ 12"
    and ok: "parity_ok buf MasterAddress MasterAddress_P"
  shows "\<exists>buf'. write_master buf master = Some (Inr buf') \<and> frame {1..<14} buf buf'
           \<and> parity_ok buf' MasterAddress MasterAddress_P"
proof (cases "truthy master")
  case False
  then show ?thesis using ok by (auto simp add: write_master_def frame_refl)
next
  case True
  then obtain m where m: "master = Some m" "0 \<le> m" "m < 2 ^ LengthBits MasterAddress"
    using rng by (cases master) (auto simp add: truthy_def MasterAddress_def)
  have one: "LengthBits MasterAddress_P = 1" by (simp add: MasterAddress_P_def)
  have dis: "window MasterAddress \<inter> window MasterAddress_P = {}" by (simp add: window_named)
  obtain buf' where b: "frame (window MasterAddress \<union> window MasterAddress_P) buf buf'"
      "getField buf' MasterAddress = Inr m" "getField buf' MasterAddress_P = Inr (par m)"
    and K: "\<And>K :: byte list \<Rightarrow> byte list res. bind_res (Some (set_field buf MasterAddress m)) (\<lambda>b.
              bind_res (parity_res m) (\<lambda>p.
              bind_res (Some (set_field b MasterAddress_P p)) K)) = K buf'"
    using write2[OF fits_named(2,3)[OF len] one m(2,3) dis] by blast
  have "write_master buf master = Some (Inr buf')"
    using True K[of "\<lambda>b. Some (Inr b)"] by (simp add: write_master_def m(1) bind_res_return)
  moreover have "frame {1..<14} buf buf'"
    using b(1) by (rule frame_mono) (auto simp add: window_named)
  moreover have "parity_ok buf' MasterAddress MasterAddress_P"
    unfolding parity_ok_def using b(2,3) m(2) by blast
  ultimately show ?thesis by blast
qed

lemma write_checked_ok:
  assumes fit: "fits buf f" "fits buf fP" "fits buf fA"
    and one: "LengthBits fP = 1" "LengthBits fA = 1"
    and dis: "window f \<inter> window fP = {}" "window f \<inter> window fA = {}"
      "window fP \<inter> window fA = {}"
    and rng: "case x of None \<Rightarrow> True | Some v \<Rightarrow> 0 \<le> v \<and> v < 2 ^ LengthBits f"
    and ok: "parity_ok buf f fP"
  shows "\<exists>buf'. (if truthy x then
                   bind_res (Some (set_field buf f (the x))) (\<lambda>buf.
                   bind_res (parity_res (the x)) (\<lambda>p.
                   bind_res (Some (set_field buf fP p)) (\<lambda>buf.
                   Some (set_field buf fA DefaultAckVal))))
                 else Some (Inr buf)) = Some (Inr buf')
           \<and> frame (window f \<union> window fP \<union> window fA) buf buf' \<and> parity_ok buf' f fP"
proof (cases "truthy x")
  case False
  then show ?thesis using ok by (auto simp add: frame_refl)
next
  case True
  then obtain v where v: "x = Some v" "0 \<le> v" "v < 2 ^ LengthBits f"
    using rng by (cases x) (auto simp add: truthy_def)
  obtain buf' where b: "frame (window f \<union> window fP \<union> window fA) buf buf'"
      "getField buf' f = Inr v" "getField buf' fP = Inr (par v)"
    and K: "\<And>K :: byte list \<Rightarrow> byte list res. bind_res (Some (set_field buf f v)) (\<lambda>b.
              bind_res (parity_res v) (\<lambda>p.
              bind_res (Some (set_field b fP p)) (\<lambda>b.
              bind_res (Some (set_field b fA DefaultAckVal)) K))) = K buf'"
    using write3[OF fit one v(2,3) dis] by blast
  have "bind_res (Some (set_field buf f v)) (\<lambda>b.
              bind_res (parity_res v) (\<lambda>p.
              bind_res (Some (set_field b fP p)) (\<lambda>b.
              Some (set_field b fA DefaultAckVal)))) = Some (Inr buf')"
    using K[of "\<lambda>b. Some (Inr b)"] by (simp add: bind_res_return)
  moreover have "parity_ok buf' f fP"
    unfolding parity_ok_def using b(2,3) v(2) by blast
  ultimately show ?thesis using True b(1) v(1) by simp
qed

lemma write_slave_ok:
  assumes len: "length buf = 68"
    and rng: "case slave of None \<Rightarrow> True | Some m \<Rightarrow> 0 \<le> m \<and> m < 2 ^ 12"
    and ok: "parity_ok buf SlaveAddress SlaveAddress_P"
  shows "\<exists>buf'. write_slave buf slave = Some (Inr buf') \<and> frame {14..<28} buf buf'
           \<and> parity_ok buf' SlaveAddress SlaveAddress_P"
proof -
  have r: "case slave of None \<Rightarrow> True | Some m \<Rightarrow> 0 \<le> m \<and> m < 2 ^ LengthBits SlaveAddress"
    using rng by (cases slave) (simp_all add: SlaveAddress_def)
  have one: "LengthBits SlaveAddress_P = 1" "LengthBits SlaveAddress_A = 1"
    by (simp_all add: SlaveAddress_P_def SlaveAddress_A_def)
  have dis: "window SlaveAddress \<inter> window SlaveAddress_P = {}"
    "window SlaveAddress \<inter> window SlaveAddress_A = {}"
    "window SlaveAddress_P \<inter> window SlaveAddress_A = {}"
    by (simp_all add: window_named)
  obtain buf' where "write_slave buf slave = Some (Inr buf')"
    "frame (window SlaveAddress \<union> window SlaveAddress_P \<union> window SlaveAddress_A) buf buf'"
    "parity_ok buf' SlaveAddress SlaveAddress_P"
    using write_checked_ok[OF fits_named(4,5,6)[OF len] one dis r ok]
    unfolding write_slave_def by blast
  moreover from this(2) have "frame {14..<28} buf buf'"
    by (rule frame_mono) (auto simp add: window_named)
  ultimately show ?thesis by blast
qed

lemma write_control_ok:
  assumes len: "length buf = 68"
    and rng: "case control of None \<Rightarrow> True | Some m \<Rightarrow> 0 \<le> m \<and> m < 2 ^ 4"
    and ok: "parity_ok buf Control Control_P"
  shows "\<exists>buf'. write_control buf control = Some (Inr buf') \<and> frame {28..<34} buf buf'
           \<and> parity_ok buf' Control Control_P"
proof -
  have r: "case control of None \<Rightarrow> True | Some m \<Rightarrow> 0 \<le> m \<and> m < 2 ^ LengthBits Control"
    using rng by (cases control) (simp_all add: Control_def)
  have one: "LengthBits Control_P = 1" "LengthBits Control_A = 1"
    by (simp_all add: Control_P_def Control_A_def)
  have dis: "window Control \<inter> window Control_P = {}"
    "window Control \<inter> window Control_A = {}"
    "window Control_P \<inter> window Control_A = {}"
    by (simp_all add: window_named)
  obtain buf' where "write_control buf control = Some (Inr buf')"
    "frame (window Control \<union> window Control_P \<union> window Control_A) buf buf'"
    "parity_ok buf' Control Control_P"
    using write_checked_ok[OF fits_named(7,8,9)[OF len] one dis r ok]
    unfolding write_control_def by blast
  moreover from this(2) have "frame {28..<34} buf buf'"
    by (rule frame_mono) (auto simp add: window_named)
  ultimately show ?thesis by blast
qed


lemma write_data_fields_ok:
  assumes "length buf = 68" "i + length ds \<le> 47" "list_all (\<lambda>x. 0 \<le> x \<and> x < 256) ds"
  shows "\<exists>buf'. write_data_fields buf i ds = Some (Inr buf')
           \<and> frame {44 + 10 * i ..< 44 + 10 * (i + length ds)} buf buf'
           \<and> (\<forall>j < length ds. getField buf' (Data (i + j)) = Inr (ds ! j)
                             \<and> getField buf' (Data_P (i + j)) = Inr (par (ds ! j)))"
  using assms
proof (induction ds arbitrary: i buf)
  case Nil
  then show ?case by (simp add: frame_refl)
next
  case (Cons val vals)
  have i: "i \<le> 46" using Cons.prems(2) by simp
  have v: "0 \<le> val" "val < 2 ^ LengthBits (Data i)"
    using Cons.prems(3) by (simp_all add: Data_def)
  have one: "LengthBits (Data_P i) = 1" "LengthBits (Data_A i) = 1"
    by (simp_all add: Data_P_def Data_A_def)
  have dis: "window (Data i) \<inter> window (Data_P i) = {}" "window (Data i) \<inter> window (Data_A i) = {}"
    "window (Data_P i) \<inter> window (Data_A i) = {}"
    by (simp_all add: window_data)
  obtain b3 where b3: "frame (window (Data i) \<union> window (Data_P i) \<union> window (Data_A i)) buf b3"
      "getField b3 (Data i) = Inr val" "getField b3 (Data_P i) = Inr (par val)"
    and K: "\<And>K :: byte list \<Rightarrow> byte list res. bind_res (Some (set_field buf (Data i) val)) (\<lambda>b.
              bind_res (parity_res val) (\<lambda>p.
              bind_res (Some (set_field b (Data_P i) p)) (\<lambda>b.
              bind_res (Some (set_field b (Data_A i) DefaultAckVal)) K))) = K b3"
    using write3[OF fits_data[OF Cons.prems(1) i] one v dis] by blast
  have len3: "length b3 = 68" using frame_length[OF b3(1)] Cons.prems(1) by simp
  have "Suc i + length vals \<le> 47" "list_all (\<lambda>x. 0 \<le> x \<and> x < 256) vals"
    using Cons.prems(2,3) by simp_all
  then obtain buf' where r: "write_data_fields b3 (Suc i) vals = Some (Inr buf')"
      "frame {44 + 10 * Suc i ..< 44 + 10 * (Suc i + length vals)} b3 buf'"
    and IH: "\<And>j. j < length vals \<Longrightarrow> getField buf' (Data (Suc i + j)) = Inr (vals ! j)
                             \<and> getField buf' (Data_P (Suc i + j)) = Inr (par (vals ! j))"
    using Cons.IH[OF len3, of "Suc i"] by blast
  have res: "write_data_fields buf i (val # vals) = Some (Inr buf')"
    using K[of "\<lambda>b. write_data_fields b (Suc i) vals"] r(1) by simp
  have "frame ((window (Data i) \<union> window (Data_P i) \<union> window (Data_A i))
                \<union> {44 + 10 * Suc i ..< 44 + 10 * (Suc i + length vals)}) buf buf'"
    using b3(1) r(2) by (rule frame_trans)
  then have fr: "frame {44 + 10 * i ..< 44 + 10 * (i + length (val # vals))} buf buf'"
    by (rule frame_mono) (auto simp add: window_data)
  have keep: "getField buf' (Data i) = Inr val" "getField buf' (Data_P i) = Inr (par val)"
    using getField_frame[OF r(2), of "Data i"] getField_frame[OF r(2), of "Data_P i"] b3(2,3)
    by (simp_all add: window_data)
  have "\<forall>j < length (val # vals). getField buf' (Data (i + j)) = Inr ((val # vals) ! j)
                             \<and> getField buf' (Data_P (i + j)) = Inr (par ((val # vals) ! j))"
  proof (intro allI impI)
    fix j assume j: "j < length (val # vals)"
    show "getField buf' (Data (i + j)) = Inr ((val # vals) ! j)
            \<and> getField buf' (Data_P (i + j)) = Inr (par ((val # vals) ! j))"
    proof (cases j)
      case 0
      then show ?thesis using keep by simp
    next
      case (Suc j')
      then show ?thesis using IH[of j'] j by simp
    qed
  qed
  then show ?case using res fr by blast
qed

lemma write_data_ok:
  assumes len: "length buf = 68"
    and zero: "getField buf DataLength = Inr 0" "getField buf DataLength_P = Inr 0"
    and rng: "case data of None \<Rightarrow> True
              | Some ds \<Rightarrow> length ds \<le> 47 \<and> list_all (\<lambda>x. 0 \<le> x \<and> x < 256) ds"
  shows "\<exists>buf' n. write_data buf data = Some (Inr buf') \<and> frame {34 ..< 44 + 10 * n} buf buf'
           \<and> getField buf' DataLength = Inr (int n)
           \<and> getField buf' DataLength_P = Inr (par (int n))
           \<and> (\<forall>j < n. parity_ok buf' (Data j) (Data_P j))"
proof (cases "data = None \<or> data = Some []")
  case True
  then have "write_data buf data = Some (Inr buf)" by (auto simp add: write_data_def)
  then show ?thesis using zero by (intro exI[of _ buf] exI[of _ 0]) (simp add: frame_refl par_0)
next
  case False
  then obtain ds where ds: "data = Some ds" "ds \<noteq> []" by (cases data) auto
  then have r: "length ds \<le> 47" "list_all (\<lambda>x. 0 \<le> x \<and> x < 256) ds" using rng by simp_all
  let ?n = "length ds"
  have v: "0 \<le> int ?n" "int ?n < 2 ^ LengthBits DataLength"
    using r(1) by (simp_all add: DataLength_def)
  have one: "LengthBits DataLength_P = 1" "LengthBits DataLength_A = 1"
    by (simp_all add: DataLength_P_def DataLength_A_def)
  have dis: "window DataLength \<inter> window DataLength_P = {}"
    "window DataLength \<inter> window DataLength_A = {}"
    "window DataLength_P \<inter> window DataLength_A = {}"
    by (simp_all add: window_named)
  obtain b3 where b3: "frame (window DataLength \<union> window DataLength_P \<union> window DataLength_A) buf b3"
      "getField b3 DataLength = Inr (int ?n)" "getField b3 DataLength_P = Inr (par (int ?n))"
    and K: "\<And>K :: byte list \<Rightarrow> byte list res. bind_res (Some (set_field buf DataLength (int ?n))) (\<lambda>b.
              bind_res (parity_res (int ?n)) (\<lambda>p.
              bind_res (Some (set_field b DataLength_P p)) (\<lambda>b.
              bind_res (Some (set_field b DataLength_A DefaultAckVal)) K))) = K b3"
    using write3[OF fits_named(10,11,12)[OF len] one v dis] by blast
  have len3: "length b3 = 68" using frame_length[OF b3(1)] len by simp
  obtain buf' where w: "write_data_fields b3 0 ds = Some (Inr buf')"
      "frame {44 + 10 * 0 ..< 44 + 10 * (0 + ?n)} b3 buf'"
    and f: "\<And>j. j < ?n \<Longrightarrow> getField buf' (Data (0 + j)) = Inr (ds ! j)
                             \<and> getField buf' (Data_P (0 + j)) = Inr (par (ds ! j))"
    using write_data_fields_ok[OF len3, of 0 ds] r by auto
  have res: "write_data buf data = Some (Inr buf')"
    using K[of "\<lambda>b. write_data_fields b 0 ds"] w(1) ds
    by (cases ds) (simp_all add: write_data_def)
  have "frame ((window DataLength \<union> window DataLength_P \<union> window DataLength_A)
                \<union> {44 + 10 * 0 ..< 44 + 10 * (0 + ?n)}) buf buf'"
    using b3(1) w(2) by (rule frame_trans)
  then have fr: "frame {34 ..< 44 + 10 * ?n} buf buf'"
    by (rule frame_mono) (auto simp add: window_named)
  have keep: "getField buf' DataLength = Inr (int ?n)" "getField buf' DataLength_P = Inr (par (int ?n))"
    using getField_frame[OF w(2), of DataLength] getField_frame[OF w(2), of DataLength_P] b3(2,3)
    by (simp_all add: window_named)
  have "\<forall>j < ?n. parity_ok buf' (Data j) (Data_P j)"
  proof (intro allI impI)
    fix j assume j: "j < ?n"
    then have "0 \<le> ds ! j" using r(2) by (simp add: list_all_length)
    then show "parity_ok buf' (Data j) (Data_P j)"
      unfolding parity_ok_def using f[OF j] by auto
  qed
  then show ?thesis using res fr keep by blast
qed

lemma check_parity_ok:
  assumes "parity_ok buf f fP"
  shows "check_parity buf fP f name st = Some (Inr st)"
proof -
  obtain v where "0 \<le> v" "getField buf f = Inr v" "getField buf fP = Inr (par v)"
    using assms unfolding parity_ok_def by blast
  then show ?thesis by (simp add: check_parity_def parity_res_nonneg)
qed

lemma check_data_ok:
  assumes "\<And>i. i \<in> set is \<Longrightarrow> parity_ok buf (Data i) (Data_P i)"
  shows "check_data buf is st = Some (Inr st)"
  using assms by (induction "is") (simp_all add: check_parity_ok)

lemma isValid_ok:
  assumes "parity_ok buf MasterAddress MasterAddress_P"
    and "parity_ok buf SlaveAddress SlaveAddress_P"
    and "parity_ok buf Control Control_P"
    and "getField buf DataLength = Inr (int n)"
    and "getField buf DataLength_P = Inr (par (int n))"
    and "\<And>j. j < n \<Longrightarrow> parity_ok buf (Data j) (Data_P j)"
  shows "isValid buf = Some (Inr (True, []))"
proof -
  have "check_data buf [0..<n] (True, []) = Some (Inr (True, []))"
    using assms(6) by (intro check_data_ok) simp
  then show ?thesis
    using assms(1-5)
    by (simp add: isValid_def check_parity_ok parity_res_nonneg)
qed


lemma init_fields_valid:
  assumes "in_range broadcast master slave control data"
  shows "\<exists>msg. init_fields broadcast master slave control data = Some (Inr msg)
           \<and> isValid msg = Some (Inr (True, []))"
proof -
  let ?b0 = "replicate (MaxMessageLenBytes + 4) (0 :: byte)"
  have len0: "length ?b0 = 68" by (simp add: MaxMessageLenBytes_def)
  have b0eq: "?b0 = replicate 68 0" by (simp add: MaxMessageLenBytes_def)
  have rb: "case broadcast of None \<Rightarrow> True | Some b \<Rightarrow> b = 0 \<or> b = 1"
    and rm: "case master of None \<Rightarrow> True | Some m \<Rightarrow> 0 \<le> m \<and> m < 2 ^ 12"
    and rs: "case slave of None \<Rightarrow> True | Some m \<Rightarrow> 0 \<le> m \<and> m < 2 ^ 12"
    and rc: "case control of None \<Rightarrow> True | Some m \<Rightarrow> 0 \<le> m \<and> m < 2 ^ 4"
    and rd: "case data of None \<Rightarrow> True
             | Some ds \<Rightarrow> length ds \<le> 47 \<and> list_all (\<lambda>x. 0 \<le> x \<and> x < 256) ds"
    using assms by (simp_all add: in_range_def)
  have z: "parity_ok ?b0 MasterAddress MasterAddress_P" "parity_ok ?b0 SlaveAddress SlaveAddress_P"
    "parity_ok ?b0 Control Control_P" "getField ?b0 DataLength = Inr 0"
    "getField ?b0 DataLength_P = Inr 0"
    using fits_named[OF len0] unfolding b0eq
    by (simp_all add: parity_ok_zero getField_zero)
  obtain b1 where b1: "write_broadcast ?b0 broadcast = Some (Inr b1)" "frame {0..<1} ?b0 b1"
    using write_broadcast_ok[OF len0 rb] by blast
  have len1: "length b1 = 68" using frame_length[OF b1(2)] len0 by simp
  have m1: "parity_ok b1 MasterAddress MasterAddress_P"
    using z(1) b1(2) by (rule parity_ok_frame) (simp_all add: window_named)
  obtain b2 where b2: "write_master b1 master = Some (Inr b2)" "frame {1..<14} b1 b2"
    "parity_ok b2 MasterAddress MasterAddress_P"
    using write_master_ok[OF len1 rm m1] by blast
  have len2: "length b2 = 68" using frame_length[OF b2(2)] len1 by simp
  have f02: "frame {0..<14} ?b0 b2"
    using frame_trans[OF b1(2) b2(2)] by (rule frame_mono) auto
  have s2: "parity_ok b2 SlaveAddress SlaveAddress_P"
    using z(2) f02 by (rule parity_ok_frame) (simp_all add: window_named)
  obtain b3 where b3: "write_slave b2 slave = Some (Inr b3)" "frame {14..<28} b2 b3"
    "parity_ok b3 SlaveAddress SlaveAddress_P"
    using write_slave_ok[OF len2 rs s2] by blast
  have len3: "length b3 = 68" using frame_length[OF b3(2)] len2 by simp
  have f03: "frame {0..<28} ?b0 b3"
    using frame_trans[OF f02 b3(2)] by (rule frame_mono) auto
  have c3: "parity_ok b3 Control Control_P"
    using z(3) f03 by (rule parity_ok_frame) (simp_all add: window_named)
  obtain b4 where b4: "write_control b3 control = Some (Inr b4)" "frame {28..<34} b3 b4"
    "parity_ok b4 Control Control_P"
    using write_control_ok[OF len3 rc c3] by blast
  have len4: "length b4 = 68" using frame_length[OF b4(2)] len3 by simp
  have f04: "frame {0..<34} ?b0 b4"
    using frame_trans[OF f03 b4(2)] by (rule frame_mono) auto
  have d4: "getField b4 DataLength = Inr 0" "getField b4 DataLength_P = Inr 0"
    using getField_frame[OF f04, of DataLength] getField_frame[OF f04, of DataLength_P] z(4,5)
    by (simp_all add: window_named)
  obtain b5 n where b5: "write_data b4 data = Some (Inr b5)" "frame {34 ..< 44 + 10 * n} b4 b5"
    "getField b5 DataLength = Inr (int n)" "getField b5 DataLength_P = Inr (par (int n))"
    "\<And>j. j < n \<Longrightarrow> parity_ok b5 (Data j) (Data_P j)"
    using write_data_ok[OF len4 d4 rd] by blast
  have f25: "frame ({14..<28} \<union> {28..<34} \<union> {34 ..< 44 + 10 * n}) b2 b5"
    using frame_trans[OF frame_trans[OF b3(2) b4(2)] b5(2)] .
  have f35: "frame ({28..<34} \<union> {34 ..< 44 + 10 * n}) b3 b5"
    using frame_trans[OF b4(2) b5(2)] .
  have m5: "parity_ok b5 MasterAddress MasterAddress_P"
    using b2(3) f25 by (rule parity_ok_frame) (auto simp add: window_named)
  have s5: "parity_ok b5 SlaveAddress SlaveAddress_P"
    using b3(3) f35 by (rule parity_ok_frame) (auto simp add: window_named)
  have c5: "parity_ok b5 Control Control_P"
    using b4(3) b5(2) by (rule parity_ok_frame) (auto simp add: window_named)
  have "init_fields broadcast master slave control data = Some (Inr b5)"
    by (simp add: init_fields_def b1(1) b2(1) b3(1) b4(1) b5(1))
  moreover have "isValid b5 = Some (Inr (True, []))"
    using m5 s5 c5 b5(3,4,5) by (rule isValid_ok)
  ultimately show ?thesis by blast
qed

text \<open>
  C5, as the code has it. Whenever the arguments the constructor works with (those
  given, or those parsed from a non-empty token string) are in range, the constructor
  returns a message and \<open>isValid\<close> returns \<open>True\<close> on it without printing a diagnostic.
\<close>

theorem constructed_message_valid:
  assumes "resolve_args message_string broadcast master_address slave_address control data
             = Inr (b, m, s, c, d)"
    and "in_range b m s c d"
  shows "\<exists>msg. IEBusMessage_init message_string broadcast master_address slave_address control data
                 = Some (Inr msg)
           \<and> isValid msg = Some (Inr (True, []))"
  using init_fields_valid[OF assms(2)] assms(1) by (simp add: IEBusMessage_init_def)

lemma resolve_args_broadcast_example:
  "resolve_args (Some ''B 1ff 000 f 1 45'') None None None None None
     = Inr (Some 0, Some 511, Some 0, Some 15, Some [15, 1, 69])"
  by code_simp

theorem constructed_message_valid_witness:
  "resolve_args (Some ''B 1ff 000 f 1 45'') None None None None None
     = Inr (Some 0, Some 511, Some 0, Some 15, Some [15, 1, 69])
   \<and> in_range (Some 0) (Some 511) (Some 0) (Some 15) (Some [15, 1, 69])
   \<and> (\<exists>msg. IEBusMessage_init (Some ''B 1ff 000 f 1 45'') None None None None None = Some (Inr msg)
           \<and> isValid msg = Some (Inr (True, [])))"
proof -
  have r: "in_range (Some 0) (Some 511) (Some 0) (Some 15) (Some [15, 1, 69])"
    by (simp add: in_range_def)
  show ?thesis
    using constructed_message_valid[OF resolve_args_broadcast_example r]
      resolve_args_broadcast_example r by blast
qed

text \<open>
  The token-string constructor does not check the range of its tokens: the 13-bit
  master address \<open>1fff\<close> is stored as \<open>fff\<close> next to the parity of \<open>1fff\<close>, and \<open>isValid\<close>
  returns \<open>False\<close>.
\<close>

theorem token_string_invalid_counterexample:
  "from_string ''- 1fff 440 f'' = Some (Inr overwide_master_message)
   \<and> isValid overwide_master_message = Some (Inr (False, [''Bad parity! MasterAddress'']))"
  by (rule conjI; code_simp)

section \<open>Field access: round trip and frame\<close>

lemma set_field_Inr_iff: "set_field buf f v = Inr b \<longleftrightarrow> setField buf f v = (b, None)"
  by (simp add: set_field_def returned_Inr_iff)

lemma setField_not_fits:
  assumes "\<not> fits buf f"
  shows "fst (setField buf f v) = buf"
  using assms by (auto simp add: setField_def fits_def unpack_from_L_def Let_def)

lemma setField_Control_31:
  "setField (replicate 68 0) Control 31 = (replicate 3 0 @ [31, 0, 0, 0] @ replicate 61 0, None)"
  by code_simp

lemma setField_Control_15:
  "setField (replicate 68 0) Control 15 = (replicate 3 0 @ [15, 0, 0, 0] @ replicate 61 0, None)"
  by code_simp

text \<open>
  C1. For every field of width 1, 4, 8 or 12 whose 4-byte window lies inside the buffer
  and every value \<open>v\<close> with \<open>0 \<le> v < 2^w\<close>, \<open>setField\<close> returns without an exception and
  \<open>getField\<close> on the written buffer returns exactly \<open>v\<close>.
\<close>

theorem setField_getField_roundtrip:
  assumes "LengthBits f \<in> {1, 4, 8, 12}"
    and "BitOffset f div 8 + 4 \<le> length buf"
    and "0 \<le> v" and "v < 2 ^ LengthBits f"
  shows "\<exists>buf'. setField buf f v = (buf', None) \<and> getField buf' f = Inr v"
proof -
  have "BitOffset f mod 8 < 8" by simp
  then have "LengthBits f + BitOffset f mod 8 \<le> 32" using assms(1) by auto
  then have "fits buf f" using assms(2) by (simp add: fits_def)
  then obtain buf' where s: "set_field buf f v = Inr buf'"
    using setField_succeeds assms(3,4) by blast
  then have "getField buf' f = Inr v" using getField_setField_same assms(4) by blast
  then show ?thesis using s by (auto simp add: set_field_Inr_iff)
qed

theorem setField_getField_roundtrip_witness:
  "LengthBits (Data 3) \<in> {1, 4, 8, 12} \<and> BitOffset (Data 3) div 8 + 4 \<le> length (replicate 68 (0 :: byte))
   \<and> (0 :: int) \<le> 165 \<and> (165 :: int) < 2 ^ LengthBits (Data 3)
   \<and> (\<exists>buf'. setField (replicate 68 0) (Data 3) 165 = (buf', None) \<and> getField buf' (Data 3) = Inr 165)"
  using setField_getField_roundtrip[of "Data 3" "replicate 68 0" 165]
  by (simp add: Data_def DataFieldLength_def)

lemma setField_in_range:
  assumes "0 \<le> v" "v < 2 ^ LengthBits f"
  shows "length (fst (setField buf f v)) = length buf"
    and "p < 8 * length buf \<Longrightarrow> p \<notin> window f \<Longrightarrow>
           bytes_to_bits (fst (setField buf f v)) ! p = bytes_to_bits buf ! p"
proof -
  have "length (fst (setField buf f v)) = length buf
      \<and> (p < 8 * length buf \<longrightarrow> p \<notin> window f \<longrightarrow>
           bytes_to_bits (fst (setField buf f v)) ! p = bytes_to_bits buf ! p)"
  proof (cases "fits buf f")
    case False
    then show ?thesis by (simp add: setField_not_fits)
  next
    case True
    then obtain buf' where s: "set_field buf f v = Inr buf'"
      using setField_succeeds assms by blast
    then have "fst (setField buf f v) = buf'" by (simp add: set_field_Inr_iff)
    then show ?thesis
      using setField_length[OF s] setField_bits[OF s assms(2), of p] by simp
  qed
  then show "length (fst (setField buf f v)) = length buf"
    and "p < 8 * length buf \<Longrightarrow> p \<notin> window f \<Longrightarrow>
           bytes_to_bits (fst (setField buf f v)) ! p = bytes_to_bits buf ! p"
    by blast+
qed

text \<open>
  C10, as the code has it. When \<open>setField\<close> is called with \<open>0 \<le> v < 2^LengthBits\<close>, the
  buffer keeps its length and every bit outside the window of the field keeps its
  value, whether the call returns or raises. The upper bound is needed: the value is
  shifted without being masked, and writing \<open>0x1F\<close> into the 4-bit \<open>Control\<close> field of a
  zeroed buffer sets bit 27, which belongs to \<open>SlaveAddress_A\<close>.
\<close>

theorem setField_frame:
  assumes "0 \<le> v" and "v < 2 ^ LengthBits f"
  shows "length (fst (setField buf f v)) = length buf
       \<and> (\<forall>p < 8 * length buf. p \<notin> window f \<longrightarrow>
             bytes_to_bits (fst (setField buf f v)) ! p = bytes_to_bits buf ! p)
       \<and> (\<exists>b. setField (replicate 68 0) Control 0x1F = (b, None) \<and> 27 \<notin> window Control
              \<and> \<not> bytes_to_bits (replicate 68 0) ! 27 \<and> bytes_to_bits b ! 27)"
proof (intro conjI)
  show "length (fst (setField buf f v)) = length buf" using assms by (rule setField_in_range(1))
  show "\<forall>p < 8 * length buf. p \<notin> window f \<longrightarrow>
          bytes_to_bits (fst (setField buf f v)) ! p = bytes_to_bits buf ! p"
    using setField_in_range(2)[OF assms] by blast
  let ?b = "replicate 3 0 @ [31, 0, 0, 0] @ replicate 61 (0 :: byte)"
  have w: "27 \<notin> window Control" by (simp add: window_def Control_def)
  have z: "\<not> bytes_to_bits (replicate 68 0) ! 27" by (simp add: bytes_to_bits_nth)
  have s: "set_field (replicate 68 0) Control 31 = Inr ?b"
    using setField_Control_31 by (simp add: set_field_Inr_iff)
  have "bytes_to_bits ?b ! 27"
    using setField_bits_general[OF s, of 27] w by (simp add: Control_def)
  then show "\<exists>b. setField (replicate 68 0) Control 0x1F = (b, None) \<and> 27 \<notin> window Control
              \<and> \<not> bytes_to_bits (replicate 68 0) ! 27 \<and> bytes_to_bits b ! 27"
    using setField_Control_31 w z by auto
qed

theorem setField_frame_witness:
  "(0 :: int) \<le> 15 \<and> (15 :: int) < 2 ^ LengthBits Control
   \<and> length (fst (setField (replicate 68 0) Control 15)) = length (replicate 68 (0 :: byte))
   \<and> 27 < 8 * length (replicate 68 (0 :: byte)) \<and> 27 \<notin> window Control
   \<and> bytes_to_bits (fst (setField (replicate 68 0) Control 15)) ! 27
         = bytes_to_bits (replicate 68 0) ! 27"
proof -
  have h: "(0 :: int) \<le> 15" "(15 :: int) < 2 ^ LengthBits Control" by (simp_all add: Control_def)
  have w: "27 \<notin> window Control" by (simp add: window_def Control_def)
  show ?thesis
    using setField_frame[OF h, of "replicate 68 0"] h w by simp
qed

text \<open>
  A negative value is below \<open>2^LengthBits\<close> too. With it \<open>pack_into\<close> raises after it has
  zeroed the 4-byte window: in a buffer of \<open>0xFF\<close> bytes, \<open>setField\<close> of \<open>-1\<close> into
  \<open>Control\<close> (bits 28 to 31) clears bit 40.
\<close>

theorem setField_negative_counterexample:
  "(- 1 :: int) < 2 ^ LengthBits Control
   \<and> setField (replicate 68 255) Control (- 1)
       = (replicate 3 255 @ replicate 4 0 @ replicate 61 255, Some (StructError OutOfRange))
   \<and> 40 \<notin> window Control
   \<and> bytes_to_bits (replicate 68 255) ! 40
   \<and> \<not> bytes_to_bits (replicate 3 255 @ replicate 4 0 @ replicate 61 255) ! 40"
proof (intro conjI)
  show "(- 1 :: int) < 2 ^ LengthBits Control" by (simp add: Control_def)
  show "setField (replicate 68 255) Control (- 1)
       = (replicate 3 255 @ replicate 4 0 @ replicate 61 255, Some (StructError OutOfRange))"
    by code_simp
  show "40 \<notin> window Control" by (simp add: window_def Control_def)
  show "bytes_to_bits (replicate 68 255) ! 40" by code_simp
  show "\<not> bytes_to_bits (replicate 3 255 @ replicate 4 0 @ replicate 61 255) ! 40" by code_simp
qed

section \<open>Construction beyond the buffer\<close>





lemma struct_error_Inl [simp]: "struct_error (Some (Inl (StructError c)))"
  by (simp add: struct_error_def)



















section \<open>Packing samples into bytes\<close>

lemma samples_iff: "samples s \<longleftrightarrow> set s \<subseteq> {CHR ''0'', CHR ''1''}"
  by (auto simp add: samples_def list_all_iff)

lemma digit_val_01: "digit_val CHR ''0'' = Some 0" "digit_val CHR ''1'' = Some 1"
  by (simp_all add: digit_val_def)

lemma scan_digits_samples:
  assumes "samples t"
  shows "scan_digits 2 False t acc
           = Some (acc @ map (\<lambda>c. if c = CHR ''1'' then 1 else 0) t, [])"
  using assms
proof (induction t arbitrary: acc)
  case Nil
  then show ?case by simp
next
  case (Cons c t)
  then have c: "c = CHR ''0'' \<or> c = CHR ''1''" and t: "samples t"
    by (auto simp add: samples_iff)
  show ?case using c Cons.IH[OF t] by (auto simp add: digit_val_01)
qed

lemma foldl_digits:
  "foldl (\<lambda>a d. a * int 2 + int d) a (map (\<lambda>c. if c = CHR ''1'' then 1 else 0) t)
     = foldl (\<lambda>a c. 2 * a + (if c = CHR ''1'' then 1 else 0)) a t"
  by (induction t arbitrary: a) (simp_all add: mult.commute)

lemma py_int_samples:
  assumes "samples t" "t \<noteq> []"
  shows "py_int 2 t = Inr (bin_val t)"
proof -
  obtain c r where t: "t = c # r" using assms(2) by (cases t) auto
  then have c: "c = CHR ''0'' \<or> c = CHR ''1''" using assms(1) by (auto simp add: samples_iff)
  have sp: "\<not> int_space c" using c by (auto simp add: int_space_def)
  have pre: "\<not> has_prefix 2 t"
  proof (cases r)
    case Nil
    then show ?thesis using t by (simp add: has_prefix_def)
  next
    case (Cons c1 r')
    then have "c1 = CHR ''0'' \<or> c1 = CHR ''1''" using assms(1) t by (auto simp add: samples_iff)
    then show ?thesis using t Cons by (auto simp add: has_prefix_def)
  qed
  have scan: "scan_digits 2 False t [] = Some (map (\<lambda>c. if c = CHR ''1'' then 1 else 0) t, [])"
    using scan_digits_samples[OF assms(1), of "[]"] by simp
  have dw: "dropWhile int_space t = t" using sp t by simp
  have neg: "(case t of c # _ \<Rightarrow> c = CHR ''-'' | [] \<Rightarrow> False) = False"
    using c t by auto
  have s2: "(case t of c # r \<Rightarrow> if c = CHR ''+'' \<or> c = CHR ''-'' then r else t | [] \<Rightarrow> t) = t"
    using c t by auto
  have s3: "(case t of [] \<Rightarrow> Inl ValueError | c # _ \<Rightarrow> if c = CHR ''_'' then Inl ValueError else X)
              = X" for X :: "error + int"
    using c t by auto
  have v: "foldl (\<lambda>a d. a * int 2 + int d) 0 (map (\<lambda>c. if c = CHR ''1'' then 1 else 0) t)
             = bin_val t"
    using foldl_digits[of 0 t] by (simp add: bin_val_def)
  show ?thesis
    unfolding py_int_def Let_def dw neg s2 if_not_P[OF pre] s3 scan
    using assms(2) v by simp
qed

lemma bin_val_snoc: "bin_val (t @ [c]) = 2 * bin_val t + (if c = CHR ''1'' then 1 else 0)"
  by (simp add: bin_val_def)

lemma bin_val_bounds: "0 \<le> bin_val t \<and> bin_val t < 2 ^ length t"
  by (induction t rule: rev_induct) (auto simp add: bin_val_snoc bin_val_def)

lemma bit_bin_val:
  "bit (bin_val t) k \<longleftrightarrow> k < length t \<and> t ! (length t - 1 - k) = CHR ''1''"
proof (induction t arbitrary: k rule: rev_induct)
  case Nil
  then show ?case by (simp add: bin_val_def)
next
  case (snoc c t)
  show ?case
  proof (cases k)
    case 0
    then show ?thesis by (simp add: bin_val_snoc bit_0)
  next
    case (Suc k')
    have "bit (bin_val (t @ [c])) (Suc k') = bit (bin_val t) k'"
      by (simp add: bin_val_snoc bit_Suc)
    then show ?thesis using snoc.IH[of k'] Suc by (auto simp add: nth_append)
  qed
qed

lemma byte_bits_bin_val:
  assumes "length t = 8"
  shows "byte_bits (word_of_int (bin_val t)) = map (\<lambda>c. c = CHR ''1'') t"
proof (rule nth_equalityI)
  show "length (byte_bits (word_of_int (bin_val t))) = length (map (\<lambda>c. c = CHR ''1'') t)"
    using assms by (simp add: byte_bits_def)
  fix i assume "i < length (byte_bits (word_of_int (bin_val t)))"
  then have i: "i < 8" by (simp add: byte_bits_def)
  then have "7 - (7 - i) = i" "7 - i < 8" by simp_all
  then show "byte_bits (word_of_int (bin_val t)) ! i = map (\<lambda>c. c = CHR ''1'') t ! i"
    using i assms by (simp add: byte_bits_def bit_word_of_int_iff bit_bin_val)
qed

lemma chunks8_Nil: "chunks8 [] = []"
  by (subst chunks8.simps) simp

lemma chunks8_Cons: "s \<noteq> [] \<Longrightarrow> chunks8 s = take 8 s # chunks8 (drop 8 s)"
  by (subst chunks8.simps) simp

lemma padded_chunks:
  assumes "samples s"
  shows "(\<forall>t \<in> set (map (ljust 8 CHR ''1'') (chunks8 s)). length t = 8 \<and> samples t)
       \<and> concat (map (ljust 8 CHR ''1'') (chunks8 s))
           = s @ replicate ((8 - length s mod 8) mod 8) CHR ''1''"
  using assms
proof (induction s rule: chunks8.induct)
  case (1 s)
  show ?case
  proof (cases "s = []")
    case True
    then show ?thesis by (simp add: chunks8_Nil)
  next
    case False
    have rest: "samples (drop 8 s)" using "1.prems" by (auto simp add: samples_iff dest: in_set_dropD)
    note IH = "1.IH"[OF False rest]
    have hd_s: "samples (take 8 s)" using "1.prems" by (auto simp add: samples_iff dest: in_set_takeD)
    show ?thesis
    proof (cases "8 \<le> length s")
      case True
      have l: "ljust 8 CHR ''1'' (take 8 s) = take 8 s" using True by (simp add: ljust_def)
      have m: "(8 - length (drop 8 s) mod 8) mod 8 = (8 - length s mod 8) mod 8"
        using True by (simp add: le_mod_geq)
      have A: "\<forall>t \<in> set (map (ljust 8 CHR ''1'') (chunks8 (drop 8 s))). length t = 8 \<and> samples t"
        using IH by blast
      have "concat (map (ljust 8 CHR ''1'') (chunks8 (drop 8 s)))
              = drop 8 s @ replicate ((8 - length (drop 8 s) mod 8) mod 8) CHR ''1''"
        using IH by blast
      then have B: "concat (map (ljust 8 CHR ''1'') (chunks8 (drop 8 s)))
              = drop 8 s @ replicate ((8 - length s mod 8) mod 8) CHR ''1''"
        unfolding m .
      have M: "map (ljust 8 CHR ''1'') (chunks8 s)
                 = take 8 s # map (ljust 8 CHR ''1'') (chunks8 (drop 8 s))"
        by (simp only: chunks8_Cons[OF False] list.map l)
      have len8: "length (take 8 s) = 8" using True by simp
      have "concat (map (ljust 8 CHR ''1'') (chunks8 s))
              = (take 8 s @ drop 8 s) @ replicate ((8 - length s mod 8) mod 8) CHR ''1''"
        unfolding M by (simp only: concat.simps B append_assoc)
      then have C: "concat (map (ljust 8 CHR ''1'') (chunks8 s))
              = s @ replicate ((8 - length s mod 8) mod 8) CHR ''1''"
        by (simp only: append_take_drop_id)
      have "\<forall>t \<in> set (map (ljust 8 CHR ''1'') (chunks8 s)). length t = 8 \<and> samples t"
        unfolding M using A hd_s len8 by simp
      then show ?thesis using C by blast
    next
      case short: False
      then have d: "drop 8 s = []" "take 8 s = s" by simp_all
      have n: "0 < length s" "length s < 8" using False short by simp_all
      then have p: "(8 - length s mod 8) mod 8 = 8 - length s" by simp
      have M: "map (ljust 8 CHR ''1'') (chunks8 s) = [ljust 8 CHR ''1'' s]"
        by (simp only: chunks8_Cons[OF False] d chunks8_Nil list.map)
      have "samples (ljust 8 CHR ''1'' s)" using "1.prems" by (auto simp add: samples_iff ljust_def)
      moreover have "length (ljust 8 CHR ''1'' s) = 8" using n by (simp add: ljust_def)
      moreover have "ljust 8 CHR ''1'' s = s @ replicate ((8 - length s mod 8) mod 8) CHR ''1''"
        unfolding p by (simp add: ljust_def)
      ultimately show ?thesis unfolding M by simp
    qed
  qed
qed

lemma map_e_Inr:
  assumes "\<And>x. x \<in> set xs \<Longrightarrow> f x = Inr (g x)"
  shows "map_e f xs = Inr (map g xs)"
  using assms by (induction xs) simp_all

lemma bits_to_bytes_samples:
  assumes "samples s"
  shows "\<exists>bs. bits_to_bytes s = Inr bs
           \<and> bytes_to_bits bs
               = map (\<lambda>c. c = CHR ''1'') s @ replicate ((8 - length s mod 8) mod 8) True"
proof -
  let ?cs = "map (ljust 8 CHR ''1'') (chunks8 s)"
  have cs: "\<And>t. t \<in> set ?cs \<Longrightarrow> length t = 8 \<and> samples t"
    and cc: "concat ?cs = s @ replicate ((8 - length s mod 8) mod 8) CHR ''1''"
    using padded_chunks[OF assms] by blast+
  have ints: "map_e (py_int 2) ?cs = Inr (map bin_val ?cs)"
  proof (rule map_e_Inr)
    fix t assume "t \<in> set ?cs"
    then have "length t = 8" "samples t" using cs by blast+
    then show "py_int 2 t = Inr (bin_val t)" by (intro py_int_samples) auto
  qed
  have rng: "list_all (\<lambda>x. 0 \<le> x \<and> x < 256) (map bin_val ?cs)"
  proof -
    have "0 \<le> bin_val t \<and> bin_val t < 256" if "t \<in> set ?cs" for t
      using bin_val_bounds[of t] cs[OF that] by simp
    then show ?thesis unfolding list_all_iff by auto
  qed
  let ?bs = "map word_of_int (map bin_val ?cs) :: byte list"
  have res: "bits_to_bytes s = Inr ?bs"
    using ints rng by (simp add: bits_to_bytes_def bytearray_def Let_def)
  have "bytes_to_bits ?bs = concat (map (\<lambda>t. byte_bits (word_of_int (bin_val t))) ?cs)"
    by (simp add: bytes_to_bits_def comp_def)
  also have "\<dots> = concat (map (map (\<lambda>c. c = CHR ''1'')) ?cs)"
    using cs by (intro arg_cong[where f = concat] map_cong refl byte_bits_bin_val) blast
  also have "\<dots> = map (\<lambda>c. c = CHR ''1'') (concat ?cs)"
    by (simp add: map_concat)
  also have "\<dots> = map (\<lambda>c. c = CHR ''1'') s @ replicate ((8 - length s mod 8) mod 8) True"
    by (simp add: cc)
  finally show ?thesis using res by blast
qed


text \<open>
  C6. For a string of samples (characters \<open>0\<close> and \<open>1\<close>), \<open>bits_to_bytes\<close> succeeds and
  \<open>bytes_to_bits\<close> of its result is the samples as booleans followed by as many \<open>True\<close>
  (idle, 1) as are missing to a multiple of 8: none when the length is a multiple of 8,
  so that the string is reproduced exactly.
\<close>

theorem bits_to_bytes_roundtrip:
  assumes "samples s"
  shows "\<exists>bs. bits_to_bytes s = Inr bs
           \<and> bytes_to_bits bs
               = map (\<lambda>c. c = CHR ''1'') s @ replicate ((8 - length s mod 8) mod 8) True
           \<and> (length s mod 8 = 0 \<longrightarrow> bytes_to_bits bs = map (\<lambda>c. c = CHR ''1'') s)"
proof -
  obtain bs where bs: "bits_to_bytes s = Inr bs"
    "bytes_to_bits bs = map (\<lambda>c. c = CHR ''1'') s @ replicate ((8 - length s mod 8) mod 8) True"
    using bits_to_bytes_samples[OF assms] by (elim exE conjE)
  have b3: "length s mod 8 = 0 \<longrightarrow> bytes_to_bits bs = map (\<lambda>c. c = CHR ''1'') s"
    unfolding bs(2) by simp
  show ?thesis by (intro exI[of _ bs] conjI bs b3)
qed

theorem bits_to_bytes_roundtrip_witness:
  "samples ''0101010111''
   \<and> (\<exists>bs. bits_to_bytes ''0101010111'' = Inr bs
         \<and> bytes_to_bits bs
             = map (\<lambda>c. c = CHR ''1'') ''0101010111''
               @ replicate ((8 - length ''0101010111'' mod 8) mod 8) True)
   \<and> bits_to_bytes ''0101010111'' = Inr [85, 255]"
proof -
  have s: "samples ''0101010111''" by (simp add: samples_iff)
  have e: "bits_to_bytes ''0101010111'' = Inr [85, 255]" by code_simp
  obtain bs where bs: "bits_to_bytes ''0101010111'' = Inr bs"
    "bytes_to_bits bs = map (\<lambda>c. c = CHR ''1'') ''0101010111''
               @ replicate ((8 - length ''0101010111'' mod 8) mod 8) True"
    using bits_to_bytes_roundtrip[OF s] by (elim exE conjE)
  show ?thesis
    by (intro conjI exI[of _ bs]) (rule s, rule bs(1), rule bs(2), rule e)
qed

section \<open>The timing constants\<close>

text \<open>
  A number strictly within a half of an integer rounds to it, and rounding to binary64
  moves a number by at most \<open>2^-53\<close> of its size. That is enough to enclose every
  intermediate float in an interval and to read off the constants.
\<close>

lemma py_round_eq:
  assumes "of_int n - 1 / 2 < x" "x < of_int n + 1 / 2"
  shows "py_round x = n"
proof -
  have fl: "\<lfloor>x\<rfloor> = n \<or> \<lfloor>x\<rfloor> = n - 1"
  proof -
    have "of_int (n - 1) \<le> x" using assms by simp
    hence a: "n - 1 \<le> \<lfloor>x\<rfloor>" by (simp only: le_floor_iff)
    have "x < of_int (n + 1)" using assms by simp
    hence "\<lfloor>x\<rfloor> < n + 1" by (simp only: floor_less_iff)
    with a show ?thesis by linarith
  qed
  show ?thesis
  proof (cases "\<lfloor>x\<rfloor> = n")
    case True
    hence "x - of_int \<lfloor>x\<rfloor> < 1 / 2" using assms by simp
    thus ?thesis using True by (simp add: py_round_def Let_def)
  next
    case False
    hence f: "\<lfloor>x\<rfloor> = n - 1" using fl by simp
    hence "1 / 2 < x - of_int \<lfloor>x\<rfloor>" using assms by simp
    thus ?thesis using f by (simp add: py_round_def Let_def)
  qed
qed

lemma py_round_near: "\<bar>of_int (py_round y) - y\<bar> \<le> 1 / 2"
proof -
  have a: "of_int \<lfloor>y\<rfloor> \<le> y" and b: "y < of_int \<lfloor>y\<rfloor> + 1" by linarith+
  show ?thesis
    using a b by (auto simp add: py_round_def Let_def abs_le_iff)
qed

lemma fl64_error:
  assumes "x \<noteq> 0"
  shows "\<bar>fl64 x - x\<bar> \<le> \<bar>x\<bar> / 2 ^ 53"
proof -
  define e where "e = \<lfloor>log 2 \<bar>x\<bar>\<rfloor> - 52"
  define s :: real where "s = 2 powr of_int e"
  have spos: "0 < s" by (simp add: s_def)
  have fl: "fl64 x = of_int (py_round (x / s)) * s"
    using assms by (simp add: fl64_def Let_def e_def s_def)
  have "\<bar>of_int (py_round (x / s)) - x / s\<bar> \<le> 1 / 2" by (rule py_round_near)
  hence "\<bar>of_int (py_round (x / s)) - x / s\<bar> * s \<le> 1 / 2 * s"
    using spos by (intro mult_right_mono) simp_all
  moreover have "\<bar>of_int (py_round (x / s)) - x / s\<bar> * s = \<bar>fl64 x - x\<bar>"
  proof -
    have "\<bar>of_int (py_round (x / s)) - x / s\<bar> * s = \<bar>(of_int (py_round (x / s)) - x / s) * s\<bar>"
      using spos by (simp add: abs_mult)
    also have "(of_int (py_round (x / s)) - x / s) * s = fl64 x - x"
      using spos by (simp add: fl left_diff_distrib)
    finally show ?thesis .
  qed
  ultimately have 1: "\<bar>fl64 x - x\<bar> \<le> s / 2" by simp
  have "2 powr of_int \<lfloor>log 2 \<bar>x\<bar>\<rfloor> \<le> 2 powr log 2 \<bar>x\<bar>"
    by (intro powr_mono) simp_all
  also have "\<dots> = \<bar>x\<bar>" using assms by simp
  finally have 2: "2 powr of_int \<lfloor>log 2 \<bar>x\<bar>\<rfloor> \<le> \<bar>x\<bar>" .
  have "s = 2 powr of_int \<lfloor>log 2 \<bar>x\<bar>\<rfloor> / 2 powr 52"
    by (simp add: s_def e_def powr_diff)
  also have "(2::real) powr 52 = 2 ^ 52"
    by (simp add: powr_numeral)
  finally have "s \<le> \<bar>x\<bar> / 2 ^ 52" using 2 by (simp add: divide_right_mono)
  hence "s / 2 \<le> \<bar>x\<bar> / 2 ^ 52 / 2" by simp
  also have "\<dots> = \<bar>x\<bar> / 2 ^ 53" by simp
  finally show ?thesis using 1 by linarith
qed

lemma fl64_interval:
  assumes "0 < lo" "lo \<le> x" "x \<le> hi"
  shows "lo * (1 - 1 / 10 ^ 9) \<le> fl64 x \<and> fl64 x \<le> hi * (1 + 1 / 10 ^ 9)"
proof -
  have x: "0 < x" using assms by linarith
  have "\<bar>fl64 x - x\<bar> \<le> \<bar>x\<bar> / 2 ^ 53" using x by (intro fl64_error) simp
  moreover have "\<bar>x\<bar> / 2 ^ 53 \<le> x / 10 ^ 9"
    using x by (simp add: field_simps)
  ultimately have e: "\<bar>fl64 x - x\<bar> \<le> x / 10 ^ 9" by linarith
  have e1: "x - x / 10 ^ 9 \<le> fl64 x" and e2: "fl64 x \<le> x + x / 10 ^ 9"
    using e by linarith+
  have "lo * (1 - 1 / 10 ^ 9) \<le> x * (1 - 1 / 10 ^ 9)"
    using assms by (intro mult_right_mono) simp_all
  moreover have "x * (1 - 1 / 10 ^ 9) = x - x / 10 ^ 9"
    by (simp add: algebra_simps)
  ultimately have a: "lo * (1 - 1 / 10 ^ 9) \<le> fl64 x" using e1 by linarith
  have "x * (1 + 1 / 10 ^ 9) \<le> hi * (1 + 1 / 10 ^ 9)"
    using assms by (intro mult_right_mono) simp_all
  moreover have "x * (1 + 1 / 10 ^ 9) = x + x / 10 ^ 9"
    by (simp add: algebra_simps)
  ultimately have b: "fl64 x \<le> hi * (1 + 1 / 10 ^ 9)" using e2 by linarith
  from a b show ?thesis by (rule conjI)
qed

lemma scale_interval:
  "999999 / 1000000 \<le> fl64 (fl64 (1 / 1000000) * of_int bitRate)
   \<and> fl64 (fl64 (1 / 1000000) * of_int bitRate) \<le> 1000001 / 1000000"
proof -
  have a: "1 / 1000000 * (1 - 1 / 10 ^ 9) \<le> fl64 (1 / 1000000)
           \<and> fl64 (1 / 1000000) \<le> 1 / 1000000 * (1 + 1 / 10 ^ 9)"
    by (rule fl64_interval) simp_all
  have b: "(1 - 1 / 10 ^ 9) \<le> fl64 (1 / 1000000) * of_int bitRate
           \<and> fl64 (1 / 1000000) * of_int bitRate \<le> (1 + 1 / 10 ^ 9)"
    using a by (simp add: bitRate_def)
  have "(1 - 1 / 10 ^ 9) * (1 - 1 / 10 ^ 9) \<le> fl64 (fl64 (1 / 1000000) * of_int bitRate)
        \<and> fl64 (fl64 (1 / 1000000) * of_int bitRate) \<le> (1 + 1 / 10 ^ 9) * (1 + 1 / 10 ^ 9)"
    using b by (intro fl64_interval) simp_all
  thus ?thesis by simp
qed

lemma uS_to_bits_eq:
  assumes "0 < lo" "lo \<le> x" "x \<le> hi"
      and "of_int n - 1 / 2 < lo * (99999 / 100000)" "hi * (100001 / 100000) < of_int n + 1 / 2"
  shows "uS_to_bits x = n"
proof -
  define m where "m = fl64 (fl64 (1 / 1000000) * of_int bitRate)"
  have m: "999999 / 1000000 \<le> m" "m \<le> 1000001 / 1000000"
    using scale_interval by (simp_all add: m_def)
  have x: "0 < x" using assms by linarith
  have hi: "0 < hi" using assms by linarith
  have l1: "lo * (999999 / 1000000) \<le> m * x"
  proof -
    have "lo * (999999 / 1000000) \<le> x * (999999 / 1000000)"
      using assms by (intro mult_right_mono) simp_all
    also have "\<dots> \<le> x * m" using m x by (intro mult_left_mono) simp_all
    finally show ?thesis by (simp add: mult.commute)
  qed
  have l2: "m * x \<le> hi * (1000001 / 1000000)"
  proof -
    have "m * x \<le> (1000001 / 1000000) * x" using m x by (intro mult_right_mono) simp_all
    also have "\<dots> \<le> (1000001 / 1000000) * hi" using assms by (intro mult_left_mono) simp_all
    finally show ?thesis by (simp add: mult.commute)
  qed
  have "lo * (999999 / 1000000) * (1 - 1 / 10 ^ 9) \<le> fl64 (m * x)
        \<and> fl64 (m * x) \<le> hi * (1000001 / 1000000) * (1 + 1 / 10 ^ 9)"
    using l1 l2 assms(1) by (intro fl64_interval) simp_all
  moreover have "lo * (99999 / 100000) \<le> lo * (999999 / 1000000) * (1 - 1 / 10 ^ 9)"
    using assms(1) by simp
  moreover have "hi * (1000001 / 1000000) * (1 + 1 / 10 ^ 9) \<le> hi * (100001 / 100000)"
    using hi by simp
  ultimately have "of_int n - 1 / 2 < fl64 (m * x)" "fl64 (m * x) < of_int n + 1 / 2"
    using assms(4,5) by linarith+
  hence "py_round (fl64 (m * x)) = n" by (rule py_round_eq)
  thus ?thesis by (simp add: uS_to_bits_def m_def)
qed

lemma T_Bit_uS_interval: "4068 / 100 \<le> T_Bit_uS \<and> T_Bit_uS \<le> 4070 / 100"
proof -
  have c: "629145 / 100000 * (1 - 1 / 10 ^ 9) \<le> fl64 6.291456
           \<and> fl64 6.291456 \<le> 629146 / 100000 * (1 + 1 / 10 ^ 9)"
    by (rule fl64_interval) simp_all
  define c where "c = fl64 6.291456"
  have c1: "62914 / 10000 \<le> c" and c2: "c \<le> 62915 / 10000" using c by (simp_all add: c_def)
  have cpos: "0 < c" using c1 by linarith
  have q1: "256 / (62915 / 10000) \<le> 256 / c"
    using c2 cpos by (intro divide_left_mono) simp_all
  have q2: "256 / c \<le> 256 / (62914 / 10000)"
    using c1 cpos by (intro divide_left_mono) simp_all
  have "256 / (62915 / 10000) * (1 - 1 / 10 ^ 9) \<le> fl64 (256 / c)
        \<and> fl64 (256 / c) \<le> 256 / (62914 / 10000) * (1 + 1 / 10 ^ 9)"
    using q1 q2 by (intro fl64_interval) simp_all
  moreover have "(4068 / 100 :: real) \<le> 256 / (62915 / 10000) * (1 - 1 / 10 ^ 9)"
    by simp
  moreover have "256 / (62914 / 10000) * (1 + 1 / 10 ^ 9) \<le> (4070 / 100 :: real)"
    by simp
  ultimately have "4068 / 100 \<le> fl64 (256 / c) \<and> fl64 (256 / c) \<le> 4070 / 100"
    by linarith
  thus ?thesis unfolding T_Bit_uS_def c_def .
qed

lemma T_StartBit_val: "T_StartBit = 170"
  unfolding T_StartBit_def by (rule uS_to_bits_eq [of 170 _ 170]) simp_all

lemma T_TxWait_val: "T_TxWait = 88"
  unfolding T_TxWait_def by (rule uS_to_bits_eq [of 88 _ 88]) simp_all

lemma T_Bit_val: "T_Bit = 41"
  unfolding T_Bit_def
  using T_Bit_uS_interval by (intro uS_to_bits_eq [of "4068 / 100" _ "4070 / 100"]) simp_all

lemma T_Bit_1_val: "T_Bit_1 = 20"
proof -
  have "4068 / 100 / 2 \<le> T_Bit_uS / 2" "T_Bit_uS / 2 \<le> 4070 / 100 / 2"
    using T_Bit_uS_interval by simp_all
  hence "4068 / 100 / 2 * (1 - 1 / 10 ^ 9) \<le> fl64 (T_Bit_uS / 2)
         \<and> fl64 (T_Bit_uS / 2) \<le> 4070 / 100 / 2 * (1 + 1 / 10 ^ 9)"
    by (intro fl64_interval) simp_all
  hence "2033 / 100 \<le> fl64 (T_Bit_uS / 2)" "fl64 (T_Bit_uS / 2) \<le> 2036 / 100" by simp_all
  thus ?thesis
    unfolding T_Bit_1_def by (intro uS_to_bits_eq [of "2033 / 100" _ "2036 / 100"]) simp_all
qed

lemma T_Bit_0_val: "T_Bit_0 = 33"
proof -
  have "4 * (4068 / 100) \<le> 4 * T_Bit_uS" "4 * T_Bit_uS \<le> 4 * (4070 / 100)"
    using T_Bit_uS_interval by simp_all
  hence "4 * (4068 / 100) * (1 - 1 / 10 ^ 9) \<le> fl64 (4 * T_Bit_uS)
         \<and> fl64 (4 * T_Bit_uS) \<le> 4 * (4070 / 100) * (1 + 1 / 10 ^ 9)"
    by (intro fl64_interval) simp_all
  hence "16271 / 100 / 5 \<le> fl64 (4 * T_Bit_uS) / 5" "fl64 (4 * T_Bit_uS) / 5 \<le> 16281 / 100 / 5"
    by simp_all
  hence "16271 / 100 / 5 * (1 - 1 / 10 ^ 9) \<le> fl64 (fl64 (4 * T_Bit_uS) / 5)
         \<and> fl64 (fl64 (4 * T_Bit_uS) / 5) \<le> 16281 / 100 / 5 * (1 + 1 / 10 ^ 9)"
    by (intro fl64_interval) simp_all
  hence "3253 / 100 \<le> fl64 (fl64 (4 * T_Bit_uS) / 5)" "fl64 (fl64 (4 * T_Bit_uS) / 5) \<le> 3257 / 100"
    by simp_all
  thus ?thesis
    unfolding T_Bit_0_def by (intro uS_to_bits_eq [of "3253 / 100" _ "3257 / 100"]) simp_all
qed

text \<open>
  Claim C9. At the bit rate of 1 MHz of the module the timing constants evaluate to
  \<open>T_StartBit = 170\<close>, \<open>T_Bit = 41\<close>, \<open>T_Bit_1 = 20\<close>, \<open>T_Bit_0 = 33\<close> and
  \<open>T_TxWait = 88\<close> samples.
\<close>

theorem timing_constants:
  "T_StartBit = 170 \<and> T_Bit = 41 \<and> T_Bit_1 = 20 \<and> T_Bit_0 = 33 \<and> T_TxWait = 88"
  by (simp add: T_StartBit_val T_Bit_val T_Bit_1_val T_Bit_0_val T_TxWait_val)

section \<open>The length of the waveform\<close>

lemma length_make_output_from_bit: "length (make_output_from_bit b) = 41"
  by (simp add: make_output_from_bit_def make_output_segment_def T_Bit_val T_Bit_0_val
      T_Bit_1_val)

lemma length_foldl_bits:
  "length (foldl (\<lambda>bitStr bitVal. bitStr @ make_output_from_bit bitVal) acc bits)
     = length acc + 41 * length bits"
  by (induction bits arbitrary: acc) (simp_all add: length_make_output_from_bit)

lemma length_make_output_from_iebus_bits:
  "length (make_output_from_iebus_bits bits) = 170 + 20 + 41 * length bits + 88"
  by (simp add: make_output_from_iebus_bits_def Let_def length_foldl_bits
      make_output_segment_def T_StartBit_val T_Bit_1_val T_TxWait_val)

lemma getField_DataLength:
  assumes "8 \<le> length msg"
  shows "\<exists>d. getField msg DataLength = Inr d \<and> 0 \<le> d"
proof -
  have "fits msg DataLength" using assms by (simp add: fits_def DataLength_def)
  from getField_eq[OF this] show ?thesis by simp
qed

lemma message_bits_eq:
  assumes "getField msg DataLength = Inr d"
  shows "message_bits msg
     = Inr (take (44 + 10 * nat d) (bytes_to_bits (take ((44 + 10 * nat d - 1) div 8 + 1) msg)))"
  using assms
  by (simp add: message_bits_def getAsBytes_def getLengthInBits_def Data_def
      DataFieldLength_def)

lemma length_message_bits:
  assumes "44 + 10 * d \<le> 8 * int (length msg)" "0 \<le> d"
  shows "int (length (take (44 + 10 * nat d)
            (bytes_to_bits (take ((44 + 10 * nat d - 1) div 8 + 1) msg)))) = 44 + 10 * d"
proof -
  define n where "n = 44 + 10 * nat d"
  have n: "n \<le> 8 * length msg" using assms by (simp add: n_def)
  define q where "q = (n - 1) div 8"
  define r where "r = (n - 1) mod 8"
  have m: "n - 1 = 8 * q + r" by (simp add: q_def r_def)
  have r: "r < 8" by (simp add: r_def)
  have "n \<le> (n - 1) + 1" by simp
  also have "\<dots> = 8 * q + r + 1" by (simp only: m)
  also have "\<dots> \<le> 8 * (q + 1)" using r by simp
  finally have "n \<le> 8 * (q + 1)" .
  hence k: "n \<le> 8 * ((n - 1) div 8 + 1)" by (simp only: q_def)
  have "n \<le> 8 * min (length msg) ((n - 1) div 8 + 1)"
  proof (cases "length msg \<le> (n - 1) div 8 + 1")
    case True
    hence "min (length msg) ((n - 1) div 8 + 1) = length msg" by (rule min_absorb1)
    thus ?thesis using n by (simp only:)
  next
    case False
    hence "(n - 1) div 8 + 1 \<le> length msg" using nat_le_linear by blast
    hence "min (length msg) ((n - 1) div 8 + 1) = (n - 1) div 8 + 1" by (rule min_absorb2)
    thus ?thesis using k by (simp only:)
  qed
  hence "length (take n (bytes_to_bits (take ((n - 1) div 8 + 1) msg))) = n"
    by (simp add: length_bytes_to_bits)
  thus ?thesis using assms(2) by (simp add: n_def)
qed

text \<open>
  Claim C2. The logical bit sequence of a message is what \<open>make_output_from_iebus_message\<close>
  passes to the encoder (\<open>message_bits\<close>). For every message (a buffer that holds the
  data-length field, as the 68 bytes of every message do) the encoder returns a signal of
  exactly \<open>170 + 20 + 41 * n + 88\<close> samples, where \<open>n\<close> is the number of logical bits; that
  is \<open>T_StartBit + T_Bit_1 + n * T_Bit + T_TxWait\<close>, and a bit contributes \<open>T_Bit\<close> samples
  whatever its value. When the buffer holds the declared length of the message, \<open>n\<close> is
  that length, 44 plus 10 for each data byte.
\<close>

theorem waveform_length:
  assumes "8 \<le> length msg"
  shows "\<exists>bits out.
           message_bits msg = Inr bits
         \<and> make_output_from_iebus_message msg = Inr out
         \<and> int (length out) = 170 + 20 + 41 * int (length bits) + 88
         \<and> int (length out) = T_StartBit + T_Bit_1 + int (length bits) * T_Bit + T_TxWait
         \<and> int (length (make_output_from_bit False)) = T_Bit
         \<and> int (length (make_output_from_bit True)) = T_Bit
         \<and> (\<forall>d. getField msg DataLength = Inr d \<and> 44 + 10 * d \<le> 8 * int (length msg)
                \<longrightarrow> int (length bits) = 44 + 10 * d)"
proof -
  obtain d where d: "getField msg DataLength = Inr d" "0 \<le> d"
    using getField_DataLength[OF assms] by (elim exE conjE)
  define bits where
    "bits = take (44 + 10 * nat d) (bytes_to_bits (take ((44 + 10 * nat d - 1) div 8 + 1) msg))"
  have b: "message_bits msg = Inr bits"
    unfolding bits_def by (rule message_bits_eq[OF d(1)])
  have o: "make_output_from_iebus_message msg = Inr (make_output_from_iebus_bits bits)"
    by (simp add: make_output_from_iebus_message_def b)
  have l1: "int (length (make_output_from_iebus_bits bits)) = 170 + 20 + 41 * int (length bits) + 88"
    by (simp add: length_make_output_from_iebus_bits)
  have l2: "int (length (make_output_from_iebus_bits bits))
              = T_StartBit + T_Bit_1 + int (length bits) * T_Bit + T_TxWait"
    by (simp add: length_make_output_from_iebus_bits T_StartBit_val T_Bit_1_val T_Bit_val
        T_TxWait_val)
  have l3: "int (length (make_output_from_bit False)) = T_Bit"
    by (simp add: length_make_output_from_bit T_Bit_val)
  have l4: "int (length (make_output_from_bit True)) = T_Bit"
    by (simp add: length_make_output_from_bit T_Bit_val)
  have l5: "\<forall>d'. getField msg DataLength = Inr d' \<and> 44 + 10 * d' \<le> 8 * int (length msg)
                \<longrightarrow> int (length bits) = 44 + 10 * d'"
  proof (intro allI impI)
    fix d' assume a: "getField msg DataLength = Inr d' \<and> 44 + 10 * d' \<le> 8 * int (length msg)"
    hence "d' = d" using d(1) by simp
    thus "int (length bits) = 44 + 10 * d'"
      unfolding bits_def using a d(2) by (simp only: length_message_bits)
  qed
  show ?thesis
    by (intro exI[of _ bits] exI[of _ "make_output_from_iebus_bits bits"] conjI b o l1 l2 l3 l4 l5)
qed

theorem waveform_length_witness:
  "8 \<le> length example_message
   \<and> getField example_message DataLength = Inr 7
   \<and> map_sum id length (message_bits example_message) = Inr 114
   \<and> map_sum id length (make_output_from_iebus_message example_message)
       = Inr (170 + 20 + 41 * 114 + 88)"
proof -
  have h: "8 \<le> length example_message" by code_simp
  have g: "getField example_message DataLength = Inr 7" by code_simp
  obtain bits out where r: "message_bits example_message = Inr bits"
      "make_output_from_iebus_message example_message = Inr out"
      "int (length out) = 170 + 20 + 41 * int (length bits) + 88"
      "\<forall>d. getField example_message DataLength = Inr d
             \<and> 44 + 10 * d \<le> 8 * int (length example_message)
           \<longrightarrow> int (length bits) = 44 + 10 * d"
    using waveform_length[OF h] by (elim exE conjE)
  have "44 + 10 * 7 \<le> 8 * int (length example_message)" by code_simp
  with r(4) g have n: "int (length bits) = 114" by simp
  hence "length bits = 114" by linarith
  moreover have "length out = 170 + 20 + 41 * 114 + 88" using r(3) n by linarith
  ultimately show ?thesis using h g r(1,2) by simp
qed

section \<open>Composing at a regular interval\<close>

lemma slice_assign_inside:
  assumes "a + length ys \<le> length xs"
  shows "slice_assign xs (int a) (int a + int (length ys)) ys
           = take a xs @ ys @ drop (a + length ys) xs"
proof -
  have 1: "\<not> int a < 0" "\<not> int a + int (length ys) < 0" by simp_all
  have 2: "min (int a) (int (length xs)) = int a" using assms by simp
  have 3: "min (int a + int (length ys)) (int (length xs)) = int a + int (length ys)"
    using assms by simp
  have 4: "max (int a + int (length ys)) (int a) = int a + int (length ys)" by simp
  have 5: "nat (int a + int (length ys)) = a + length ys" by simp
  show ?thesis
    unfolding slice_assign_def Let_def by (simp only: 1 2 3 4 5 if_False nat_int)
qed

lemma slice_assign_beyond:
  assumes "length xs \<le> length ys"
  shows "slice_assign xs 0 (0 + int (length ys)) ys = ys"
  using assms by (simp add: slice_assign_def Let_def)

lemma map_e_Cons_Inr:
  assumes "map_e f (x # xs) = Inr ys"
  shows "\<exists>y ys'. f x = Inr y \<and> map_e f xs = Inr ys' \<and> ys = y # ys'"
  using assms by (auto split: sum.splits)

lemma map_e_length: "map_e f xs = Inr ys \<Longrightarrow> length ys = length xs"
proof (induction xs arbitrary: ys)
  case Nil
  thus ?case by simp
next
  case (Cons x xs)
  from map_e_Cons_Inr[OF Cons.prems] obtain y ys' where
    y: "f x = Inr y" "map_e f xs = Inr ys'" "ys = y # ys'" by (elim exE conjE)
  thus ?case using Cons.IH[OF y(2)] by simp
qed

lemma place_signals_regular:
  assumes "0 < regular"
      and "map_e make_output_from_iebus_message (map snd rows) = Inr sigs"
      and "\<forall>s \<in> set sigs. int (length s) \<le> regular"
      and "length signal = (i + length rows) * nat regular"
  shows "\<exists>timeline. place_signals regular signal i rows = Inr timeline
           \<and> length timeline = length signal
           \<and> take (i * nat regular) timeline = take (i * nat regular) signal
           \<and> (\<forall>j < length rows.
                 take (length (sigs ! j)) (drop ((i + j) * nat regular) timeline) = sigs ! j)"
  using assms(2-4)
proof (induction rows arbitrary: signal i sigs)
  case Nil
  thus ?case by simp
next
  case (Cons row rows)
  obtain t m where row: "row = (t, m)" by (cases row)
  define R where "R = nat regular"
  have R: "0 < R" "int R = regular" using assms(1) by (simp_all add: R_def)
  from Cons.prems(1) have "map_e make_output_from_iebus_message (m # map snd rows) = Inr sigs"
    by (simp add: row)
  from map_e_Cons_Inr[OF this] obtain s sigs' where
    s: "make_output_from_iebus_message m = Inr s"
       "map_e make_output_from_iebus_message (map snd rows) = Inr sigs'"
       "sigs = s # sigs'" by (elim exE conjE)
  have ls: "length s \<le> R" using Cons.prems(2) s(3) R(2) by simp
  have small: "\<forall>s \<in> set sigs'. int (length s) \<le> regular" using Cons.prems(2) s(3) by simp
  have len: "length signal = (i + Suc (length rows)) * R"
    using Cons.prems(3) by (simp add: R_def)
  have "i * R + length s \<le> i * R + R" using ls by simp
  also have "\<dots> = Suc i * R" by simp
  finally have fit1: "i * R + length s \<le> Suc i * R" .
  have "Suc i * R \<le> (i + Suc (length rows)) * R" by (intro mult_le_mono1) simp
  hence fit2: "Suc i * R \<le> length signal" using len by simp
  have fit: "i * R + length s \<le> length signal" using fit1 fit2 by linarith
  define signal' where "signal' = take (i * R) signal @ s @ drop (i * R + length s) signal"
  have sl: "slice_assign signal (int i * regular) (int i * regular + int (length s)) s = signal'"
  proof -
    have "int i * regular = int (i * R)" using R(2) by simp
    thus ?thesis using slice_assign_inside[OF fit] by (simp only: signal'_def)
  qed
  have step: "place_signals regular signal i (row # rows) = place_signals regular signal' (Suc i) rows"
    using assms(1) by (simp add: row s(1) Let_def sl)
  have len': "length signal' = length signal" using fit by (simp add: signal'_def)
  have len'': "length signal' = (Suc i + length rows) * nat regular"
    using len len' by (simp add: R_def)
  from Cons.IH[OF s(2) small len''] obtain timeline where
    tl: "place_signals regular signal' (Suc i) rows = Inr timeline"
        "length timeline = length signal'"
        "take (Suc i * R) timeline = take (Suc i * R) signal'"
        "\<forall>j < length rows.
           take (length (sigs' ! j)) (drop ((Suc i + j) * R) timeline) = sigs' ! j"
    unfolding R_def by (elim exE conjE)
  have pre: "take (i * R) timeline = take (i * R) signal"
  proof -
    have "take (i * R) timeline = take (i * R) (take (Suc i * R) timeline)"
      by (simp add: min_def)
    also have "\<dots> = take (i * R) (take (Suc i * R) signal')" by (simp only: tl(3))
    also have "\<dots> = take (i * R) signal'" by (simp add: min_def)
    also have "\<dots> = take (i * R) signal" using fit by (simp add: signal'_def)
    finally show ?thesis .
  qed
  have here: "take (length s) (drop (i * R) timeline) = s"
  proof -
    have "take (length s) (drop (i * R) timeline)
            = take (length s) (drop (i * R) (take (Suc i * R) timeline))"
      using fit1 by (simp add: drop_take min_def)
    also have "\<dots> = take (length s) (drop (i * R) (take (Suc i * R) signal'))"
      by (simp only: tl(3))
    also have "\<dots> = take (length s) (drop (i * R) signal')"
      using fit1 by (simp add: drop_take min_def)
    also have "\<dots> = s" using fit by (simp add: signal'_def)
    finally show ?thesis .
  qed
  have all: "\<forall>j < length (row # rows).
          take (length (sigs ! j)) (drop ((i + j) * R) timeline) = sigs ! j"
  proof (intro allI impI)
    fix j assume j: "j < length (row # rows)"
    show "take (length (sigs ! j)) (drop ((i + j) * R) timeline) = sigs ! j"
    proof (cases j)
      case 0
      thus ?thesis using here by (simp add: s(3))
    next
      case (Suc j')
      hence "j' < length rows" using j by simp
      with tl(4) have "take (length (sigs' ! j')) (drop ((Suc i + j') * R) timeline) = sigs' ! j'"
        by simp
      thus ?thesis by (simp add: Suc s(3))
    qed
  qed
  have g1: "place_signals regular signal i (row # rows) = Inr timeline"
    by (simp only: step tl(1))
  have g2: "length timeline = length signal" by (simp only: tl(2) len')
  show ?case
    unfolding R_def[symmetric] by (intro exI[of _ timeline] conjI g1 g2 pre all)
qed

lemma example_output:
  "make_output_from_iebus_message example_message = Inr example_signal"
proof -
  have g: "getField example_message DataLength = Inr 7" by code_simp
  have "take ((44 + 10 * nat 7 - 1) div 8 + 1) example_message = take 15 example_message"
    by simp
  moreover have "take 114 (bytes_to_bits (take 15 example_message))
                   = take 114 (bytes_to_bits example_message)"
    by code_simp
  ultimately show ?thesis
    by (simp add: make_output_from_iebus_message_def message_bits_eq[OF g] example_signal_def)
qed

lemma length_example_signal: "length example_signal = 4952"
proof -
  have "length (take 114 (bytes_to_bits example_message)) = 114" by code_simp
  thus ?thesis by (simp add: example_signal_def length_make_output_from_iebus_bits)
qed

text \<open>
  Claim C7, as it holds. Composing \<open>k\<close> messages at a regular interval \<open>R \<noteq> 0\<close>, when the
  signal of every message is at most \<open>R\<close> samples long: the composition succeeds, the
  timeline before trimming has exactly \<open>k * R\<close> samples, and the signal of the \<open>i\<close>-th message
  stands in it from offset \<open>i * R\<close>, for every \<open>i < k\<close>.
\<close>

theorem regular_placement:
  assumes "regular \<noteq> 0"
      and "map_e make_output_from_iebus_message (map snd rows) = Inr sigs"
      and "\<forall>s \<in> set sigs. int (length s) \<le> regular"
  shows "\<exists>timeline. compose_timeline regular rows = Inr timeline
           \<and> int (length timeline) = int (length rows) * regular
           \<and> (\<forall>i < length rows.
                 take (length (sigs ! i)) (drop (i * nat regular) timeline) = sigs ! i)"
proof (cases "rows = []")
  case True
  thus ?thesis using assms(1) by (simp add: compose_timeline_def)
next
  case False
  have "length sigs = length rows" using map_e_length[OF assms(2)] by simp
  hence "sigs \<noteq> []" using False by auto
  then obtain s where "s \<in> set sigs" by (cases sigs) auto
  hence "int (length s) \<le> regular" using assms(3) by simp
  hence pos: "0 < regular" using assms(1) by linarith
  define signal where "signal = replicate (nat (regular * int (length rows))) CHR ''1''"
  have "nat (regular * int (length rows)) = length rows * nat regular"
    using pos by (simp add: nat_mult_distrib mult.commute)
  hence len: "length signal = (0 + length rows) * nat regular" by (simp add: signal_def)
  from place_signals_regular[OF pos assms(2,3) len] obtain timeline where
    tl: "place_signals regular signal 0 rows = Inr timeline"
        "length timeline = length signal"
        "\<forall>j < length rows.
           take (length (sigs ! j)) (drop ((0 + j) * nat regular) timeline) = sigs ! j"
    by (elim exE conjE)
  have c: "compose_timeline regular rows = Inr timeline"
    using assms(1) by (simp add: compose_timeline_def assms(2) tl(1)[unfolded signal_def])
  have l: "int (length timeline) = int (length rows) * regular"
    using tl(2) len pos by simp
  have p: "\<forall>i < length rows.
             take (length (sigs ! i)) (drop (i * nat regular) timeline) = sigs ! i"
    using tl(3) by simp
  show ?thesis by (intro exI[of _ timeline] conjI c l p)
qed

theorem regular_placement_witness:
  "(5000 :: int) \<noteq> 0
   \<and> map_e make_output_from_iebus_message (map snd [(0, example_message), (7, example_message)])
       = Inr [example_signal, example_signal]
   \<and> int (length example_signal) \<le> 5000
   \<and> map_sum id length (compose_timeline 5000 [(0, example_message), (7, example_message)])
       = Inr 10000
   \<and> map_sum id (take 4952 \<circ> drop 5000)
        (compose_timeline 5000 [(0, example_message), (7, example_message)])
       = Inr example_signal"
proof -
  have h1: "(5000 :: int) \<noteq> 0" by simp
  have h2: "map_e make_output_from_iebus_message
              (map snd [(0 :: int, example_message), (7, example_message)])
            = Inr [example_signal, example_signal]"
    by (simp add: example_output)
  have h3: "\<forall>s \<in> set [example_signal, example_signal]. int (length s) \<le> 5000"
    by (simp add: length_example_signal)
  from regular_placement[OF h1 h2 h3] obtain timeline where
    tl: "compose_timeline 5000 [(0, example_message), (7, example_message)] = Inr timeline"
        "int (length timeline) = int (length [(0 :: int, example_message), (7, example_message)]) * 5000"
        "\<forall>i < length [(0 :: int, example_message), (7, example_message)].
           take (length ([example_signal, example_signal] ! i)) (drop (i * nat 5000) timeline)
             = [example_signal, example_signal] ! i"
    by (elim exE conjE)
  have l: "length timeline = 10000" using tl(2) by simp
  have "(1 :: nat) < length [(0 :: int, example_message), (7, example_message)]" by simp
  with tl(3) have
    "take (length ([example_signal, example_signal] ! 1)) (drop (1 * nat 5000) timeline)
       = [example_signal, example_signal] ! 1"
    by blast
  hence p: "take 4952 (drop 5000 timeline) = example_signal"
    by (simp add: length_example_signal)
  show ?thesis
    using h1 h2 l p by (simp add: tl(1) length_example_signal)
qed

text \<open>
  Claim C7, as stated, fails when a signal is longer than the interval: the slice
  assignment of the last message then lengthens the timeline. One message of 114 bits
  (4952 samples) at an interval of 1000 gives a timeline of 4952 samples, not 1000.
\<close>

theorem regular_length_counterexample:
  "map_sum id length (compose_timeline 1000 [(0, example_message)]) = Inr 4952
   \<and> (4952 :: nat) \<noteq> 1 * 1000"
proof -
  have "length (replicate (nat 1000) CHR ''1'') \<le> length example_signal"
    by (simp add: length_example_signal)
  from slice_assign_beyond[OF this]
  have "compose_timeline 1000 [(0, example_message)] = Inr example_signal"
    by (simp add: compose_timeline_def example_output Let_def)
  thus ?thesis by (simp add: length_example_signal)
qed

end
